theory Spec2Isabelle
  imports Main
begin

section \<open>JavaScript strings\<close>

text \<open>
  The extension is TypeScript; its strings are sequences of UTF-16 code units and
  every offset it computes counts code units. The model uses \<open>string\<close>, one
  \<open>char\<close> per code unit, which covers the code units U+0000 to U+00FF (Latin-1).
  Every character the scanners compare against is ASCII.
\<close>

definition isWhiteSpace :: "char \<Rightarrow> bool" where
  \<comment> \<open>what the regular expression \<open>\s\<close> and \<open>String.prototype.trim\<close> treat as white
      space, among the code units below 256: TAB, LF, VT, FF, CR, SP, NBSP\<close>
  "isWhiteSpace c =
     (c = CHR 0x09 \<or> c = CHR 0x0A \<or> c = CHR 0x0B \<or> c = CHR 0x0C \<or> c = CHR 0x0D
      \<or> c = CHR 0x20 \<or> c = CHR 0xA0)"

definition isIdentChar :: "char \<Rightarrow> bool" where
  \<comment> \<open>the character class \<open>[a-zA-Z0-9_]\<close>\<close>
  "isIdentChar c =
     (let n = (of_char c :: nat)
      in (97 \<le> n \<and> n \<le> 122) \<or> (65 \<le> n \<and> n \<le> 90) \<or> (48 \<le> n \<and> n \<le> 57) \<or> n = 95)"

definition toLowerCaseChar :: "char \<Rightarrow> char" where
  \<comment> \<open>\<open>toLowerCase\<close> on one code unit below 256: A-Z and the Latin-1 capitals
      U+00C0..U+00DE (but not the multiplication sign U+00D7) move up by 32\<close>
  "toLowerCaseChar c =
     (let n = (of_char c :: nat)
      in if (65 \<le> n \<and> n \<le> 90) \<or> (192 \<le> n \<and> n \<le> 222 \<and> n \<noteq> 215)
         then char_of (n + 32) else c)"

definition toLowerCase :: "string \<Rightarrow> string" where
  "toLowerCase s = map toLowerCaseChar s"

definition trim :: "string \<Rightarrow> string" where
  "trim s = rev (dropWhile isWhiteSpace (rev (dropWhile isWhiteSpace s)))"

definition substring :: "string \<Rightarrow> nat \<Rightarrow> nat \<Rightarrow> string" where
  \<comment> \<open>\<open>s.substring(a, b)\<close>: both indices are clamped to the length and swapped
      when \<open>a > b\<close>\<close>
  "substring s a b =
     (let a' = min a (length s); b' = min b (length s);
          lo = min a' b'; hi = max a' b'
      in take (hi - lo) (drop lo s))"

definition substringFrom :: "string \<Rightarrow> nat \<Rightarrow> string" where
  \<comment> \<open>\<open>s.substring(a)\<close>\<close>
  "substringFrom s a = drop a s"

definition charAt :: "string \<Rightarrow> nat \<Rightarrow> string" where
  \<comment> \<open>\<open>s.charAt(i)\<close>: the empty string out of range\<close>
  "charAt s i = (if i < length s then [s ! i] else [])"

definition jsIndex :: "string \<Rightarrow> nat \<Rightarrow> char option" where
  \<comment> \<open>\<open>s[i]\<close>: \<open>undefined\<close> (None) out of range\<close>
  "jsIndex s i = (if i < length s then Some (s ! i) else None)"

fun testWhiteSpace :: "char option \<Rightarrow> bool" where
  \<comment> \<open>\<open>/\s/.test(s[i])\<close>; \<open>undefined\<close> is tested as the text "undefined"\<close>
  "testWhiteSpace None = False"
| "testWhiteSpace (Some c) = isWhiteSpace c"

fun testIdentChar :: "char option \<Rightarrow> bool" where
  \<comment> \<open>\<open>/[a-zA-Z0-9_]/.test(s[i])\<close>; the text "undefined" has letters\<close>
  "testIdentChar None = True"
| "testIdentChar (Some c) = isIdentChar c"

fun join :: "string \<Rightarrow> string list \<Rightarrow> string" where
  \<comment> \<open>\<open>xs.join(sep)\<close>\<close>
  "join sep [] = []"
| "join sep [x] = x"
| "join sep (x # y # ys) = x @ sep @ join sep (y # ys)"

definition digitChar :: "nat \<Rightarrow> char" where
  "digitChar d = char_of (48 + d)"

fun numberToString :: "nat \<Rightarrow> string" where
  \<comment> \<open>a non-negative integer inside a template literal: its decimal digits\<close>
  "numberToString n =
     (if n < 10 then [digitChar n] else numberToString (n div 10) @ [digitChar (n mod 10)])"

declare numberToString.simps [simp del]

section \<open>Data model (types.ts)\<close>

record AutofillOptions =
  enableCompletion :: bool
  useParameterNames :: bool
  fallbackToTypeName :: bool

record MethodParameter =
  name :: string
  type :: string
  index :: nat

record ArgumentFillResult =
  arguments :: string
  replaceStart :: nat
  replaceLength :: nat

record MethodCallContext =
  methodName :: string
  isConstructor :: bool
  openParenOffset :: nat
  closeParenOffset :: nat
  argumentsStart :: nat
  argumentsLength :: nat
  existingArguments :: string

section \<open>ArgumentFiller.findMethodCallContext\<close>

text \<open>
  One pass of the body of the backward loop on the character \<open>text[i]\<close> with the
  current \<open>parenDepth\<close>: \<open>None\<close> is the \<open>break\<close> (the open parenthesis is at
  \<open>i\<close>), \<open>Some d\<close> goes on with depth \<open>d\<close>.
\<close>

definition backwardBody :: "char option \<Rightarrow> int \<Rightarrow> int option" where
  "backwardBody ch parenDepth =
     (if ch = Some CHR '')'' then Some (parenDepth + 1)
      else if ch = Some CHR ''('' then
        (if parenDepth = 0 then None else Some (parenDepth - 1))
      else Some parenDepth)"

text \<open>
  \<open>for (let i = scanStart; i >= 0; i--)\<close>: the result is \<open>openParenOffset\<close>, with
  \<open>None\<close> for the initial \<open>-1\<close> that is left when the loop runs out.
\<close>

fun scanBackward :: "string \<Rightarrow> nat \<Rightarrow> int \<Rightarrow> nat option" where
  "scanBackward text 0 parenDepth =
     (case backwardBody (jsIndex text 0) parenDepth of
        None \<Rightarrow> Some 0
      | Some d \<Rightarrow> None)"
| "scanBackward text (Suc i) parenDepth =
     (case backwardBody (jsIndex text (Suc i)) parenDepth of
        None \<Rightarrow> Some (Suc i)
      | Some d \<Rightarrow> scanBackward text i d)"

text \<open>
  \<open>for (let i = openParenOffset + 1; i < text.length; i++)\<close>, entered with
  \<open>parenDepth = 1\<close>: the result is \<open>closeParenOffset\<close>, \<open>None\<close> for \<open>-1\<close>.
\<close>

function scanForward :: "string \<Rightarrow> nat \<Rightarrow> int \<Rightarrow> nat option" where
  "scanForward text i parenDepth =
     (if i < length text then
        (if text ! i = CHR ''('' then scanForward text (i + 1) (parenDepth + 1)
         else if text ! i = CHR '')'' then
           (if parenDepth - 1 = 0 then Some i
            else scanForward text (i + 1) (parenDepth - 1))
         else scanForward text (i + 1) parenDepth)
      else None)"
  by pat_completeness auto
termination
  by (relation "measure (\<lambda>(text, i, parenDepth). length text - i)") auto

declare scanForward.simps [simp del]

text \<open>\<open>while (start > 0 && re.test(text[start - 1])) start--\<close>\<close>

fun skipBackward :: "(char option \<Rightarrow> bool) \<Rightarrow> string \<Rightarrow> nat \<Rightarrow> nat" where
  "skipBackward re text 0 = 0"
| "skipBackward re text (Suc n) =
     (if re (jsIndex text n) then skipBackward re text n else Suc n)"

definition extractMethodName :: "string \<Rightarrow> nat \<Rightarrow> (string \<times> bool) option" where
  \<comment> \<open>the pair is the object \<open>{ name, isConstructor }\<close>\<close>
  "extractMethodName text openParen =
     (let end' = skipBackward testWhiteSpace text openParen;
          start = skipBackward testIdentChar text end'
      in if start = end' then None
         else
           let name' = substring text start end';
               beforeName = skipBackward testWhiteSpace text start;
               isConstructor' =
                 (beforeName \<ge> 3 \<and> substring text (beforeName - 3) beforeName = ''new'')
           in Some (name', isConstructor'))"

definition findMethodCallContext :: "string \<Rightarrow> nat \<Rightarrow> MethodCallContext option" where
  "findMethodCallContext text offset =
     (let scanStart = (if offset > 0 then offset - 1 else 0)
      in case scanBackward text scanStart 0 of
           None \<Rightarrow> None
         | Some openParenOffset' \<Rightarrow>
             (case scanForward text (openParenOffset' + 1) 1 of
                None \<Rightarrow> None
              | Some closeParenOffset' \<Rightarrow>
                  (case extractMethodName text openParenOffset' of
                     None \<Rightarrow> None
                   | Some (name', isConstructor') \<Rightarrow>
                       Some \<lparr> methodName = name',
                              isConstructor = isConstructor',
                              openParenOffset = openParenOffset',
                              closeParenOffset = closeParenOffset',
                              argumentsStart = openParenOffset' + 1,
                              argumentsLength = closeParenOffset' - openParenOffset' - 1,
                              existingArguments =
                                trim (substring text (openParenOffset' + 1) closeParenOffset') \<rparr>)))"

section \<open>The signature-help query (Symbol-Source Adapter)\<close>

text \<open>
  \<open>vscode.commands.executeCommand('vscode.executeSignatureHelpProvider', uri, position)\<close>
  is outside the repository. Its outcome for the document and position at hand is an
  input of the model: the command throws (or its promise is rejected), it resolves to
  \<open>undefined\<close>, or it resolves to a \<open>SignatureHelp\<close>. A parameter's label is a
  string or a pair of offsets into the signature's label.
\<close>

datatype ParameterLabel = LabelString string | LabelRange nat nat

record SignatureInformation =
  sigLabel :: string
  parameters :: "ParameterLabel list"

record SignatureHelp =
  signatures :: "SignatureInformation list"
  activeSignature :: nat

datatype SignatureHelpReply = Rejected | NoSignatureHelp | Reply SignatureHelp

text \<open>\<open>s.split(/\s+/)\<close>: the pieces between the maximal runs of white space.\<close>

function splitWhiteSpace :: "string \<Rightarrow> string list" where
  "splitWhiteSpace s =
     (let piece = takeWhile (\<lambda>c. \<not> isWhiteSpace c) s;
          rest = dropWhile (\<lambda>c. \<not> isWhiteSpace c) s
      in if rest = [] then [piece]
         else piece # splitWhiteSpace (dropWhile isWhiteSpace rest))"
  by pat_completeness auto
termination
proof (relation "measure length")
  show "wf (measure length)" by simp
next
  fix s piece rest :: string
  assume rest: "rest = dropWhile (\<lambda>c. \<not> isWhiteSpace c) s" and ne: "rest \<noteq> []"
  from ne obtain c cs where cs: "rest = c # cs" by (cases rest) auto
  have "dropWhile (\<lambda>c. \<not> isWhiteSpace c) s = c # cs"
    using rest cs by simp
  then have "isWhiteSpace c"
    unfolding dropWhile_eq_Cons_conv by simp
  then have "length (dropWhile isWhiteSpace rest) \<le> length cs"
    using cs by (simp add: length_dropWhile_le)
  also have "length cs < length rest" using cs by simp
  also have "length rest \<le> length s" using rest by (simp add: length_dropWhile_le)
  finally show "(dropWhile isWhiteSpace rest, s) \<in> measure length" by simp
qed

declare splitWhiteSpace.simps [simp del]

definition parseParameterLabel :: "string \<Rightarrow> string \<times> string" where
  \<comment> \<open>the pair is the object \<open>{ name, type }\<close>; the method is written out twice in the
      source, with the same text, in ArgumentFiller and in ArgumentCompletionProvider\<close>
  "parseParameterLabel lbl =
     (let trimmed = trim lbl;
          parts = splitWhiteSpace trimmed
      in if length parts \<ge> 2
         then (parts ! (length parts - 1), join '' '' (take (length parts - 1) parts))
         else (trimmed, ''Object''))"

definition toMethodParameter :: "string \<Rightarrow> ParameterLabel \<times> nat \<Rightarrow> MethodParameter" where
  \<comment> \<open>the callback of \<open>activeSignature.parameters.map((param, index) => ...)\<close>\<close>
  "toMethodParameter signatureLabel = (\<lambda>(param, i).
     (let paramLabel = (case param of
                          LabelString s \<Rightarrow> s
                        | LabelRange a b \<Rightarrow> substring signatureLabel a b);
          (name', type') = parseParameterLabel paramLabel
      in \<lparr> name = (if name' = [] then ''arg'' @ numberToString (i + 1) else name'),
           type = (if type' = [] then ''Object'' else type'),
           index = i \<rparr>))"

definition getParametersFromLanguageServer :: "SignatureHelpReply \<Rightarrow> MethodParameter list option" where
  \<comment> \<open>\<open>None\<close> is \<open>null\<close>; an active index outside \<open>signatures\<close> reads \<open>undefined\<close>,
      whose \<open>.parameters\<close> throws inside the \<open>try\<close>, so \<open>catch\<close> returns \<open>null\<close>\<close>
  "getParametersFromLanguageServer reply =
     (case reply of
        Rejected \<Rightarrow> None
      | NoSignatureHelp \<Rightarrow> None
      | Reply signatureHelp \<Rightarrow>
          if length (signatures signatureHelp) = 0 then None
          else if activeSignature signatureHelp < length (signatures signatureHelp) then
            (let active = signatures signatureHelp ! activeSignature signatureHelp
             in if length (parameters active) = 0 then None
                else Some (map (toMethodParameter (sigLabel active))
                             (zip (parameters active) [0..<length (parameters active)])))
          else None)"

section \<open>ArgumentFiller.countArguments\<close>

text \<open>
  The state of the loop is \<open>(count, depth, inString, stringChar)\<close>; \<open>stringChar\<close>
  starts as the empty string and holds the opening quote afterwards.
\<close>

type_synonym CountState = "nat \<times> int \<times> bool \<times> string"

definition isOpenBracket :: "char \<Rightarrow> bool" where
  "isOpenBracket c = (c = CHR ''('' \<or> c = CHR ''['' \<or> c = CHR ''{'')"

definition isCloseBracket :: "char \<Rightarrow> bool" where
  "isCloseBracket c = (c = CHR '')'' \<or> c = CHR '']'' \<or> c = CHR ''}'')"

definition isQuote :: "char \<Rightarrow> bool" where
  \<comment> \<open>the double quote (0x22) or the single quote (0x27)\<close>
  "isQuote c = (c = CHR 0x22 \<or> c = CHR 0x27)"

fun countStep :: "CountState \<Rightarrow> char \<Rightarrow> CountState" where
  "countStep (count, depth, inString, stringChar) c =
     (if \<not> inString then
        (if isQuote c then (count, depth, True, [c])
         else if isOpenBracket c then (count, depth + 1, inString, stringChar)
         else if isCloseBracket c then (count, depth - 1, inString, stringChar)
         else if c = CHR '','' \<and> depth = 0 then (count + 1, depth, inString, stringChar)
         else (count, depth, inString, stringChar))
      else if [c] = stringChar then (count, depth, False, stringChar)
      else (count, depth, inString, stringChar))"

definition countArguments :: "string \<Rightarrow> nat" where
  "countArguments argsString =
     (if trim argsString = [] then 0
      else fst (foldl countStep (1, 0, False, []) argsString))"

section \<open>ArgumentFiller.generatePlaceholderParameters\<close>

datatype error =
  TypeError  \<comment> \<open>calling something that is not a function\<close>
| IllegalValue  \<comment> \<open>\<open>TextDocument.lineAt\<close> on a line the document does not have\<close>

definition knownPatterns :: "(string \<times> string list) list" where
  "knownPatterns =
     [(''equals'', [''obj'']),
      (''compareTo'', [''other'']),
      (''indexOf'', [''element'']),
      (''contains'', [''element'']),
      (''add'', [''element'']),
      (''remove'', [''element'']),
      (''put'', [''key'', ''value'']),
      (''get'', [''key'']),
      (''substring'', [''beginIndex'', ''endIndex'']),
      (''replace'', [''oldValue'', ''newValue'']),
      (''split'', [''regex'']),
      (''format'', [''format'', ''args'']),
      (''printf'', [''format'', ''args'']),
      (''println'', [''message'']),
      (''print'', [''message'']),
      (''append'', [''str'']),
      (''insert'', [''offset'', ''str''])]"

text \<open>
  \<open>knownPatterns\<close> is an object literal, so \<open>knownPatterns[methodName]\<close> is an
  ordinary property read: a name that is not a key of the literal is looked up on
  \<open>Object.prototype\<close>, whose properties are functions (and, for \<open>__proto__\<close>, the
  prototype object itself). Such a value is truthy and has no \<open>map\<close> method.
\<close>

definition objectPrototypeProperties :: "string list" where
  "objectPrototypeProperties =
     [''constructor'', ''hasOwnProperty'', ''isPrototypeOf'', ''propertyIsEnumerable'',
      ''toLocaleString'', ''toString'', ''valueOf'', ''__proto__'',
      ''__defineGetter__'', ''__defineSetter__'', ''__lookupGetter__'', ''__lookupSetter__'']"

datatype PropertyValue = Undefined | OwnArray "string list" | Inherited

definition getProperty :: "(string \<times> string list) list \<Rightarrow> string \<Rightarrow> PropertyValue" where
  "getProperty obj key =
     (case map_of obj key of
        Some v \<Rightarrow> OwnArray v
      | None \<Rightarrow> if key \<in> set objectPrototypeProperties then Inherited else Undefined)"

definition generatePlaceholderParameters :: "string \<Rightarrow> bool \<Rightarrow> error + MethodParameter list" where
  "generatePlaceholderParameters methodName' isConstructor' =
     (if take 3 methodName' = ''set'' \<and> length methodName' > 3 then
        (let fieldName = toLowerCase (charAt methodName' 3) @ substringFrom methodName' 4
         in Inr [\<lparr> name = fieldName, type = ''Object'', index = 0 \<rparr>])
      else
        (case getProperty knownPatterns methodName' of
           OwnArray patternParams \<Rightarrow>
             Inr (map (\<lambda>(name', i). \<lparr> name = name', type = ''Object'', index = i \<rparr>)
                    (zip patternParams [0..<length patternParams]))
         | Inherited \<Rightarrow> Inl TypeError
         | Undefined \<Rightarrow> Inr []))"

section \<open>ArgumentFiller.parseParametersFromContext, generateArgumentString, fillArguments\<close>

definition parseParametersFromContext ::
  "AutofillOptions \<Rightarrow> string \<Rightarrow> MethodCallContext \<Rightarrow> error + MethodParameter list option" where
  \<comment> \<open>\<open>Inr None\<close> is \<open>null\<close>\<close>
  "parseParametersFromContext options text ctx =
     (if length (existingArguments ctx) > 0 \<and> countArguments (existingArguments ctx) > 0
      then Inr None
      else if fallbackToTypeName options then
        (case generatePlaceholderParameters (methodName ctx) (isConstructor ctx) of
           Inl e \<Rightarrow> Inl e
         | Inr ps \<Rightarrow> Inr (Some ps))
      else Inr None)"

definition stripTypeBrackets :: "string \<Rightarrow> string" where
  \<comment> \<open>\<open>.replace(/[<>[\]]/g, '')\<close>\<close>
  "stripTypeBrackets s =
     filter (\<lambda>c. \<not> (c = CHR ''<'' \<or> c = CHR ''>'' \<or> c = CHR ''['' \<or> c = CHR '']'')) s"

fun splitOn :: "char \<Rightarrow> string \<Rightarrow> string list" where
  \<comment> \<open>\<open>s.split(sep)\<close> for a separator of one character\<close>
  "splitOn sep [] = [[]]"
| "splitOn sep (c # cs) =
     (if c = sep then [] # splitOn sep cs
      else (case splitOn sep cs of
              [] \<Rightarrow> [[c]]
            | piece # pieces \<Rightarrow> (c # piece) # pieces))"

definition pop :: "'a list \<Rightarrow> 'a option" where
  \<comment> \<open>the value of \<open>xs.pop()\<close>: \<open>undefined\<close> on the empty array\<close>
  "pop xs = (if xs = [] then None else Some (last xs))"

definition typeToVariableName :: "MethodParameter \<Rightarrow> string" where
  "typeToVariableName p =
     (let typeName = (case pop (splitOn CHR ''.'' (stripTypeBrackets (type p))) of
                        None \<Rightarrow> ''arg''
                      | Some s \<Rightarrow> if s = [] then ''arg'' else s)
      in toLowerCase (charAt typeName 0) @ substringFrom typeName 1)"

definition generateArgumentString :: "AutofillOptions \<Rightarrow> MethodParameter list \<Rightarrow> string" where
  "generateArgumentString options ps =
     (if useParameterNames options then join '', '' (map name ps)
      else if fallbackToTypeName options then join '', '' (map typeToVariableName ps)
      else join '', '' (map (\<lambda>(p, i). ''arg'' @ numberToString (i + 1))
                          (zip ps [0..<length ps])))"

text \<open>
  \<open>fillArguments\<close> reads the document's text and the cursor's offset
  (\<open>document.getText()\<close>, \<open>document.offsetAt(position)\<close>); the model takes both, with
  \<open>hasJavaSupport\<close> (is the Java extension installed) and the outcome of the
  signature-help query. \<open>Inr None\<close> is the \<open>null\<close> result, \<open>Inl\<close> an exception
  that leaves the method.
\<close>

definition fillArguments ::
  "AutofillOptions \<Rightarrow> bool \<Rightarrow> SignatureHelpReply \<Rightarrow> string \<Rightarrow> nat
     \<Rightarrow> error + ArgumentFillResult option" where
  "fillArguments options hasJavaSupport reply text offset =
     (case findMethodCallContext text offset of
        None \<Rightarrow> Inr None
      | Some methodCallInfo \<Rightarrow>
          (let fromServer = (if hasJavaSupport then getParametersFromLanguageServer reply
                             else None)
           in case (case fromServer of
                      None \<Rightarrow> parseParametersFromContext options text methodCallInfo
                    | Some ps \<Rightarrow> Inr (Some ps)) of
                Inl e \<Rightarrow> Inl e
              | Inr None \<Rightarrow> Inr None
              | Inr (Some ps) \<Rightarrow>
                  if length ps = 0 then Inr None
                  else Inr (Some \<lparr> arguments = generateArgumentString options ps,
                                    replaceStart = argumentsStart methodCallInfo,
                                    replaceLength = argumentsLength methodCallInfo \<rparr>)))"

section \<open>ArgumentCompletionProvider\<close>

text \<open>
  A document is the list of the texts of its lines (without line terminators), which is
  all the completion provider reads of it through \<open>document.lineAt(n).text\<close>.
  \<open>lineAt\<close> throws on a line number the document does not have.
\<close>

type_synonym TextDocument = "string list"

record Position =
  line :: nat
  character :: nat

record Range =
  rangeStart :: Position
  rangeEnd :: Position

definition isBefore :: "Position \<Rightarrow> Position \<Rightarrow> bool" where
  "isBefore p q = (line p < line q \<or> (line p = line q \<and> character p < character q))"

definition newRange :: "Position \<Rightarrow> Position \<Rightarrow> Range" where
  \<comment> \<open>\<open>new vscode.Range(a, b)\<close> orders its two ends\<close>
  "newRange a b =
     (if isBefore b a then \<lparr> rangeStart = b, rangeEnd = a \<rparr>
      else \<lparr> rangeStart = a, rangeEnd = b \<rparr>)"

definition lineAt :: "TextDocument \<Rightarrow> nat \<Rightarrow> error + string" where
  "lineAt document n = (if n < length document then Inr (document ! n) else Inl IllegalValue)"

datatype CompletionItemKind = Snippet | Variable

record CompletionItem =
  label :: string
  kind :: CompletionItemKind
  insertText :: "string option"
  detail :: "string option"
  documentation :: "string option"
  sortText :: "string option"
  preselect :: bool
  range' :: "Range option"

definition endsWithIdentChar :: "string \<Rightarrow> bool" where
  \<comment> \<open>\<open>/[a-zA-Z0-9_]$/.test(s)\<close>\<close>
  "endsWithIdentChar s = (s \<noteq> [] \<and> isIdentChar (last s))"

text \<open>
  The loop of \<open>isInsideMethodCall\<close>, \<open>for (let i = text.length - 1; i >= 0; i--)\<close>:
  the second argument is \<open>i + 1\<close>, the number of characters still to be read.
\<close>

fun insideLoop :: "string \<Rightarrow> nat \<Rightarrow> int \<Rightarrow> bool" where
  "insideLoop textBeforeCursor 0 parenDepth = False"
| "insideLoop textBeforeCursor (Suc i) parenDepth =
     (if jsIndex textBeforeCursor i = Some CHR '')'' then
        insideLoop textBeforeCursor i (parenDepth + 1)
      else if jsIndex textBeforeCursor i = Some CHR ''('' then
        (if parenDepth = 0 then endsWithIdentChar (trim (substring textBeforeCursor 0 i))
         else insideLoop textBeforeCursor i (parenDepth - 1))
      else insideLoop textBeforeCursor i parenDepth)"

definition isInsideMethodCall :: "string \<Rightarrow> bool" where
  "isInsideMethodCall textBeforeCursor = insideLoop textBeforeCursor (length textBeforeCursor) 0"

definition getParametersFromSignatureHelp :: "SignatureHelpReply \<Rightarrow> MethodParameter list option" where
  \<comment> \<open>the same text as \<open>ArgumentFiller.getParametersFromLanguageServer\<close>\<close>
  "getParametersFromSignatureHelp reply =
     (case reply of
        Rejected \<Rightarrow> None
      | NoSignatureHelp \<Rightarrow> None
      | Reply signatureHelp \<Rightarrow>
          if length (signatures signatureHelp) = 0 then None
          else if activeSignature signatureHelp < length (signatures signatureHelp) then
            (let active = signatures signatureHelp ! activeSignature signatureHelp
             in if length (parameters active) = 0 then None
                else Some (map (toMethodParameter (sigLabel active))
                             (zip (parameters active) [0..<length (parameters active)])))
          else None)"

text \<open>
  The forward loop of \<open>calculateReplaceRange\<close> over \<open>textAfterCursor\<close>: the
  characters still to be read, the index \<open>i\<close> of the first of them and \<open>depth\<close>.
  The result is \<open>endChar\<close>, which stays at \<open>position.character\<close> when the loop
  runs to the end of the line.
\<close>

fun endLoop :: "nat \<Rightarrow> string \<Rightarrow> nat \<Rightarrow> int \<Rightarrow> nat" where
  "endLoop positionCharacter [] i depth = positionCharacter"
| "endLoop positionCharacter (c # cs) i depth =
     (if isOpenBracket c then endLoop positionCharacter cs (i + 1) (depth + 1)
      else if isCloseBracket c then
        (if depth = 0 then positionCharacter + i
         else endLoop positionCharacter cs (i + 1) (depth - 1))
      else if c = CHR '','' \<and> depth = 0 then positionCharacter + i
      else endLoop positionCharacter cs (i + 1) depth)"

text \<open>\<open>while (startChar < position.character && /\s/.test(lineText[startChar])) startChar++\<close>\<close>

function skipWhiteSpace :: "string \<Rightarrow> nat \<Rightarrow> nat \<Rightarrow> nat" where
  "skipWhiteSpace lineText positionCharacter startChar =
     (if startChar < positionCharacter \<and> testWhiteSpace (jsIndex lineText startChar)
      then skipWhiteSpace lineText positionCharacter (startChar + 1)
      else startChar)"
  by pat_completeness auto
termination
  by (relation "measure (\<lambda>(lineText, positionCharacter, startChar). positionCharacter - startChar)")
    auto

declare skipWhiteSpace.simps [simp del]

text \<open>
  The backward loop of \<open>calculateReplaceRange\<close>; the last argument is \<open>i + 1\<close>.
  \<open>startChar\<close> stays at \<open>position.character\<close> when no \<open>(\<close> or \<open>,\<close> is met.
\<close>

fun startLoop :: "string \<Rightarrow> string \<Rightarrow> nat \<Rightarrow> nat \<Rightarrow> nat" where
  "startLoop lineText textBeforeCursor positionCharacter 0 = positionCharacter"
| "startLoop lineText textBeforeCursor positionCharacter (Suc i) =
     (if jsIndex textBeforeCursor i = Some CHR ''('' \<or> jsIndex textBeforeCursor i = Some CHR '',''
      then skipWhiteSpace lineText positionCharacter (i + 1)
      else startLoop lineText textBeforeCursor positionCharacter i)"

definition calculateReplaceRange :: "TextDocument \<Rightarrow> Position \<Rightarrow> error + Range" where
  "calculateReplaceRange document position =
     (case lineAt document (line position) of
        Inl e \<Rightarrow> Inl e
      | Inr lineText \<Rightarrow>
          (let textAfterCursor = substringFrom lineText (character position);
               endChar = endLoop (character position) textAfterCursor 0 0;
               textBeforeCursor = substring lineText 0 (character position);
               startChar = startLoop lineText textBeforeCursor (character position)
                             (length textBeforeCursor)
           in Inr (newRange \<lparr> line = line position, character = startChar \<rparr>
                            \<lparr> line = line position, character = endChar \<rparr>)))"

definition createCompletionItems ::
  "MethodParameter list \<Rightarrow> TextDocument \<Rightarrow> Position \<Rightarrow> error + CompletionItem list" where
  "createCompletionItems ps document position =
     (let allArgsString = join '', '' (map name ps);
          snippet = join '', ''
            (map (\<lambda>(p, i). ''${'' @ numberToString (i + 1) @ '':'' @ name p @ ''}'')
               (zip ps [0..<length ps]))
      in case calculateReplaceRange document position of
           Inl e \<Rightarrow> Inl e
         | Inr r \<Rightarrow>
             Inr (\<lparr> label = ''Fill all arguments'',
                     kind = Snippet,
                     insertText = Some snippet,
                     detail = Some (''Fill with: '' @ allArgsString),
                     documentation =
                       Some (''Fills all method arguments with parameter names:''
                             @ [CHR 0x0A, CHR 0x0A, CHR 0x60] @ allArgsString @ [CHR 0x60]),
                     sortText = Some ''0'',
                     preselect = True,
                     range' = Some r \<rparr>
                  # map (\<lambda>(param, i).
                           \<lparr> label = name param,
                             kind = Variable,
                             insertText = None,
                             detail = Some (''Parameter '' @ numberToString (i + 1) @ '': ''
                                            @ type param),
                             documentation = None,
                             sortText = Some (''1'' @ numberToString i),
                             preselect = False,
                             range' = None \<rparr>)
                      (zip ps [0..<length ps])))"

text \<open>
  \<open>provideCompletionItems\<close>: \<open>Inr None\<close> is the \<open>null\<close> result (no suggestions).
\<close>

definition provideCompletionItems ::
  "AutofillOptions \<Rightarrow> bool \<Rightarrow> SignatureHelpReply \<Rightarrow> TextDocument \<Rightarrow> Position
     \<Rightarrow> error + CompletionItem list option" where
  "provideCompletionItems options hasJavaSupport reply document position =
     (if \<not> enableCompletion options then Inr None
      else
        (case lineAt document (line position) of
           Inl e \<Rightarrow> Inl e
         | Inr lineText \<Rightarrow>
             (let textBeforeCursor = substring lineText 0 (character position)
              in if \<not> isInsideMethodCall textBeforeCursor then Inr None
                 else
                   (case (if hasJavaSupport then getParametersFromSignatureHelp reply
                          else None) of
                      None \<Rightarrow> Inr None
                    | Some ps \<Rightarrow>
                        if length ps = 0 then Inr None
                        else (case createCompletionItems ps document position of
                                Inl e \<Rightarrow> Inl e
                              | Inr items \<Rightarrow> Inr (Some items))))))"

section \<open>Notions of the specification\<close>

text \<open>
  The definitions of this section are not translations of the source: they say, in
  the words of the specification, what the loops of the source are claimed to compute.
\<close>

subsection \<open>Top-level commas of an argument text\<close>

text \<open>
  \<open>literalOpen s\<close> is the quote character of the string literal that is still open
  at the end of \<open>s\<close>, if one is: a quote opens a literal, and only the same quote
  character closes it.
\<close>

definition quoteStep :: "char option \<Rightarrow> char \<Rightarrow> char option" where
  "quoteStep q c =
     (case q of
        None \<Rightarrow> if isQuote c then Some c else None
      | Some k \<Rightarrow> if c = k then None else Some k)"

definition literalOpen :: "string \<Rightarrow> char option" where
  "literalOpen s = foldl quoteStep None s"

definition bracketDelta :: "char \<Rightarrow> int" where
  "bracketDelta c = (if isOpenBracket c then 1 else if isCloseBracket c then - 1 else 0)"

text \<open>
  The bracket depth at the end of \<open>s\<close>: openers minus closers of any of the three
  kinds, one counter for all, over the characters that stand outside string literals.
\<close>

definition bracketDepth :: "string \<Rightarrow> int" where
  "bracketDepth s =
     sum_list (map (\<lambda>i. if literalOpen (take i s) = None then bracketDelta (s ! i) else 0)
                 [0..<length s])"

text \<open>The positions of the commas at depth 0 outside string literals.\<close>

definition topLevelCommas :: "string \<Rightarrow> nat list" where
  "topLevelCommas s =
     filter (\<lambda>i. s ! i = CHR '','' \<and> literalOpen (take i s) = None \<and> bracketDepth (take i s) = 0)
       [0..<length s]"

definition isBlank :: "string \<Rightarrow> bool" where
  "isBlank s = list_all isWhiteSpace s"

definition countInvariant :: "string \<Rightarrow> CountState \<Rightarrow> bool" where
  \<comment> \<open>what the state of the loop of \<open>countArguments\<close> is after reading \<open>s\<close>\<close>
  "countInvariant s st =
     (case st of (count, depth, inString, stringChar) \<Rightarrow>
        count = 1 + length (topLevelCommas s) \<and> depth = bracketDepth s
        \<and> (if inString then (\<exists>q. literalOpen s = Some q \<and> stringChar = [q])
            else literalOpen s = None))"

subsection \<open>The text synthesized for one parameter\<close>

text \<open>
  The type-derived identifier: strip angle and square brackets from the type, take
  what follows the last dot, lower-case the first character, and use the word
  \<open>arg\<close> when nothing is left.
\<close>

definition afterLastDot :: "string \<Rightarrow> string" where
  "afterLastDot s = rev (takeWhile (\<lambda>c. c \<noteq> CHR ''.'') (rev s))"

definition lowerFirst :: "string \<Rightarrow> string" where
  "lowerFirst s = (case s of [] \<Rightarrow> [] | c # cs \<Rightarrow> toLowerCaseChar c # cs)"

definition typeDerivedIdentifier :: "string \<Rightarrow> string" where
  "typeDerivedIdentifier t =
     (let r = lowerFirst (afterLastDot (filter (\<lambda>c. c \<notin> set ''<>[]'') t))
      in if r = [] then ''arg'' else r)"

definition positionalPlaceholder :: "nat \<Rightarrow> string" where
  "positionalPlaceholder i = ''arg'' @ numberToString (i + 1)"

definition parameterText :: "AutofillOptions \<Rightarrow> nat \<Rightarrow> MethodParameter \<Rightarrow> string" where
  "parameterText options i p =
     (if useParameterNames options then name p
      else if fallbackToTypeName options then typeDerivedIdentifier (type p)
      else positionalPlaceholder i)"

subsection \<open>The tokens of a parameter label\<close>

text \<open>
  The tokens of a text are its maximal runs of characters that are not white space:
  cut the text at every white-space character and keep the pieces that are not empty.
\<close>

fun splitWhere :: "(char \<Rightarrow> bool) \<Rightarrow> string \<Rightarrow> string list" where
  "splitWhere P [] = [[]]"
| "splitWhere P (c # cs) =
     (if P c then [] # splitWhere P cs
      else (case splitWhere P cs of
              [] \<Rightarrow> [[c]]
            | piece # pieces \<Rightarrow> (c # piece) # pieces))"

definition tokens :: "string \<Rightarrow> string list" where
  "tokens s = filter (\<lambda>w. w \<noteq> []) (splitWhere isWhiteSpace s)"

definition labelText :: "string \<Rightarrow> ParameterLabel \<Rightarrow> string" where
  "labelText signatureLabel param =
     (case param of
        LabelString s \<Rightarrow> s
      | LabelRange a b \<Rightarrow> substring signatureLabel a b)"

subsection \<open>Balanced parentheses and the located call site\<close>

text \<open>
  The depth counters of \<open>findMethodCallContext\<close> are described by the balance of
  round brackets: opening ones minus closing ones. A text is balanced when its
  balance is 0 and no prefix of it closes more than it opens. \<open>slice s a b\<close> is the
  text from index \<open>a\<close> up to, not including, index \<open>b\<close>.
\<close>

definition parenDelta :: "char \<Rightarrow> int" where
  "parenDelta c = (if c = CHR ''('' then 1 else if c = CHR '')'' then - 1 else 0)"

definition parenBalance :: "string \<Rightarrow> int" where
  "parenBalance s = sum_list (map parenDelta s)"

definition balanced :: "string \<Rightarrow> bool" where
  "balanced s =
     (parenBalance s = 0 \<and> list_all (\<lambda>k. 0 \<le> parenBalance (take k s)) [0..<Suc (length s)])"

definition slice :: "string \<Rightarrow> nat \<Rightarrow> nat \<Rightarrow> string" where
  "slice s a b = take (b - a) (drop a s)"

text \<open>
  \<open>unmatchedOpen text start p\<close>: an open parenthesis stands at \<open>p\<close>, at or before
  \<open>start\<close>, and what lies between it and \<open>start\<close> (inclusive) is balanced, so that
  nothing up to \<open>start\<close> closes it: the innermost open parenthesis still open at
  \<open>start\<close>. \<open>matchingClose text p c\<close>: a closing parenthesis stands at \<open>c\<close>
  after \<open>p\<close> and the text between the two is balanced.
\<close>

definition unmatchedOpen :: "string \<Rightarrow> nat \<Rightarrow> nat \<Rightarrow> bool" where
  "unmatchedOpen text start p =
     (p \<le> start \<and> jsIndex text p = Some CHR ''('' \<and> balanced (slice text (p + 1) (start + 1)))"

definition matchingClose :: "string \<Rightarrow> nat \<Rightarrow> nat \<Rightarrow> bool" where
  "matchingClose text p c =
     (p < c \<and> jsIndex text c = Some CHR '')'' \<and> balanced (slice text (p + 1) c))"

fun optDelta :: "char option \<Rightarrow> int" where
  "optDelta None = 0"
| "optDelta (Some c) = parenDelta c"

text \<open>The context of the call with parentheses at \<open>p\<close> and \<open>c\<close>.\<close>

definition callSite :: "string \<Rightarrow> nat \<Rightarrow> nat \<Rightarrow> string \<Rightarrow> bool \<Rightarrow> MethodCallContext" where
  "callSite t p c nm isCtor =
     \<lparr> methodName = nm, isConstructor = isCtor,
       openParenOffset = p, closeParenOffset = c,
       argumentsStart = p + 1, argumentsLength = c - p - 1,
       existingArguments = trim (slice t (p + 1) c) \<rparr>"

subsection \<open>The heuristic path of the resolver\<close>

text \<open>
  No authoritative data: the Java extension is not installed, or the signature-help
  query gave no parameters. The heuristic path: a call site was located, nothing but
  white space stands between its parentheses, and there is no authoritative data.
  A setter name is \<open>set\<close> followed by at least one more character.
\<close>

definition noAdapterData :: "bool \<Rightarrow> SignatureHelpReply \<Rightarrow> bool" where
  "noAdapterData hasJavaSupport reply =
     (\<not> hasJavaSupport \<or> getParametersFromLanguageServer reply = None)"

definition heuristicPath :: "bool \<Rightarrow> SignatureHelpReply \<Rightarrow> string \<Rightarrow> nat \<Rightarrow> MethodCallContext \<Rightarrow> bool" where
  "heuristicPath hasJavaSupport reply text offset ctx =
     (findMethodCallContext text offset = Some ctx \<and> existingArguments ctx = []
      \<and> noAdapterData hasJavaSupport reply)"

definition isSetterName :: "string \<Rightarrow> bool" where
  "isSetterName nm = (\<exists>c rest. nm = ''set'' @ c # rest)"

definition fillResult :: "AutofillOptions \<Rightarrow> MethodCallContext \<Rightarrow> MethodParameter list \<Rightarrow> ArgumentFillResult" where
  "fillResult options ctx ps =
     \<lparr> arguments = generateArgumentString options ps,
       replaceStart = argumentsStart ctx,
       replaceLength = argumentsLength ctx \<rparr>"

subsection \<open>The completion provider's view of the document\<close>

text \<open>
  \<open>identBeforeUnmatchedOpen t\<close>: the text \<open>t\<close> has an open parenthesis that is still
  open at its end, and what stands before that parenthesis ends, white space apart, in
  an identifier character. \<open>textBeforeLine eol document n\<close> is the text of the
  document before line \<open>n\<close>, each line followed by the line terminator \<open>eol\<close>.
  \<open>topLevelStop s j\<close>: at index \<open>j\<close> of \<open>s\<close> stands a comma or a closing bracket,
  and the brackets of any kind before it are balanced (depth 0; string literals are
  not looked at). \<open>stopAt d s j\<close> is the same for a scan that starts at depth \<open>d\<close>.
\<close>

definition identBeforeUnmatchedOpen :: "string \<Rightarrow> bool" where
  "identBeforeUnmatchedOpen t =
     list_ex (\<lambda>p. unmatchedOpen t (length t - 1) p \<and> endsWithIdentChar (trim (take p t)))
       [0..<length t]"

definition textBeforeLine :: "string \<Rightarrow> TextDocument \<Rightarrow> nat \<Rightarrow> string" where
  "textBeforeLine eol document n = concat (map (\<lambda>l. l @ eol) (take n document))"

definition anyBracketDepth :: "string \<Rightarrow> int" where
  "anyBracketDepth s = sum_list (map bracketDelta s)"

definition topLevelStop :: "string \<Rightarrow> nat \<Rightarrow> bool" where
  "topLevelStop s j =
     (j < length s \<and> (isCloseBracket (s ! j) \<or> s ! j = CHR '','')
      \<and> anyBracketDepth (take j s) = 0)"

definition stopAt :: "int \<Rightarrow> string \<Rightarrow> nat \<Rightarrow> bool" where
  "stopAt d s j =
     (j < length s \<and> (isCloseBracket (s ! j) \<or> s ! j = CHR '','')
      \<and> d + anyBracketDepth (take j s) = 0)"

section \<open>Properties\<close>

subsection \<open>countArguments\<close>

lemma all_dropWhile_iff: "(\<forall>x\<in>set (dropWhile P s). P x) \<longleftrightarrow> (\<forall>x\<in>set s. P x)"
  by (induction s) auto

lemma trim_Nil_iff: "trim s = [] \<longleftrightarrow> isBlank s"
proof -
  have "trim s = [] \<longleftrightarrow> (\<forall>x\<in>set (dropWhile isWhiteSpace s). isWhiteSpace x)"
    by (simp add: trim_def dropWhile_eq_Nil_conv)
  then show ?thesis
    by (simp add: all_dropWhile_iff isBlank_def list_all_iff)
qed

lemma literalOpen_snoc: "literalOpen (s @ [c]) = quoteStep (literalOpen s) c"
  by (simp add: literalOpen_def)

lemma bracketDepth_snoc:
  "bracketDepth (s @ [c]) = bracketDepth s + (if literalOpen s = None then bracketDelta c else 0)"
proof -
  let ?f = "\<lambda>t i. if literalOpen (take i t) = None then bracketDelta (t ! i) else (0::int)"
  have eq: "map (?f (s @ [c])) [0..<length s] = map (?f s) [0..<length s]"
    by (rule map_cong) (simp_all add: nth_append)
  have "bracketDepth (s @ [c]) = sum_list (map (?f (s @ [c])) ([0..<length s] @ [length s]))"
    unfolding bracketDepth_def by simp
  also have "\<dots> = sum_list (map (?f (s @ [c])) [0..<length s]) + ?f (s @ [c]) (length s)"
    by (simp only: map_append sum_list_append list.map sum_list.Cons sum_list.Nil add_0_right)
  also have "\<dots> = bracketDepth s + (if literalOpen s = None then bracketDelta c else 0)"
    unfolding eq bracketDepth_def by simp
  finally show ?thesis .
qed

lemma topLevelCommas_snoc:
  "topLevelCommas (s @ [c]) =
     topLevelCommas s @
       (if c = CHR '','' \<and> literalOpen s = None \<and> bracketDepth s = 0 then [length s] else [])"
proof -
  have "filter (\<lambda>i. (s @ [c]) ! i = CHR '','' \<and> literalOpen (take i (s @ [c])) = None
                  \<and> bracketDepth (take i (s @ [c])) = 0) [0..<length s]
      = filter (\<lambda>i. s ! i = CHR '','' \<and> literalOpen (take i s) = None
                  \<and> bracketDepth (take i s) = 0) [0..<length s]"
    by (rule filter_cong) (auto simp: nth_append)
  then show ?thesis by (simp add: topLevelCommas_def)
qed

lemma comma_class: "\<not> isQuote CHR '',''" "\<not> isOpenBracket CHR '',''" "\<not> isCloseBracket CHR '',''"
  by (simp_all add: isQuote_def isOpenBracket_def isCloseBracket_def)

lemma quote_not_bracket: "isQuote c \<Longrightarrow> bracketDelta c = 0"
  by (auto simp: isQuote_def isOpenBracket_def isCloseBracket_def bracketDelta_def)

lemma open_not_close: "isOpenBracket c \<Longrightarrow> \<not> isCloseBracket c"
  by (auto simp: isOpenBracket_def isCloseBracket_def)

lemma countStep_invariant:
  assumes "countInvariant s st"
  shows "countInvariant (s @ [c]) (countStep st c)"
proof -
  obtain count depth inString stringChar where st: "st = (count, depth, inString, stringChar)"
    by (cases st) auto
  show ?thesis
  proof (cases inString)
    case True
    with assms st obtain q where q: "literalOpen s = Some q" "stringChar = [q]"
      and cd: "count = 1 + length (topLevelCommas s)" "depth = bracketDepth s"
      by (auto simp: countInvariant_def)
    show ?thesis
      unfolding st countInvariant_def using True q cd
      by (simp add: literalOpen_snoc bracketDepth_snoc topLevelCommas_snoc quoteStep_def)
  next
    case False
    with assms st have q: "literalOpen s = None"
      and cd: "count = 1 + length (topLevelCommas s)" "depth = bracketDepth s"
      by (auto simp: countInvariant_def)
    consider (cQuote) "isQuote c"
      | (cOpen) "\<not> isQuote c" "isOpenBracket c"
      | (cClose) "\<not> isQuote c" "\<not> isOpenBracket c" "isCloseBracket c"
      | (cComma) "c = CHR '',''"
      | (cOther) "\<not> isQuote c" "\<not> isOpenBracket c" "\<not> isCloseBracket c" "c \<noteq> CHR '',''"
      by blast
    then show ?thesis
    proof cases
      case cQuote
      then have "c \<noteq> CHR '',''" using comma_class by auto
      with cQuote show ?thesis
        unfolding st countInvariant_def using False q cd
        by (simp add: literalOpen_snoc bracketDepth_snoc topLevelCommas_snoc quoteStep_def
            quote_not_bracket)
    next
      case cOpen
      then have "c \<noteq> CHR '',''" using comma_class by auto
      with cOpen show ?thesis
        unfolding st countInvariant_def using False q cd
        by (simp add: literalOpen_snoc bracketDepth_snoc topLevelCommas_snoc quoteStep_def
            bracketDelta_def)
    next
      case cClose
      then have "c \<noteq> CHR '',''" using comma_class by auto
      with cClose show ?thesis
        unfolding st countInvariant_def using False q cd
        by (simp add: literalOpen_snoc bracketDepth_snoc topLevelCommas_snoc quoteStep_def
            bracketDelta_def)
    next
      case cComma
      then show ?thesis
        unfolding st countInvariant_def using False q cd
        by (simp add: literalOpen_snoc bracketDepth_snoc topLevelCommas_snoc quoteStep_def
            bracketDelta_def comma_class)
    next
      case cOther
      then show ?thesis
        unfolding st countInvariant_def using False q cd
        by (simp add: literalOpen_snoc bracketDepth_snoc topLevelCommas_snoc quoteStep_def
            bracketDelta_def)
    qed
  qed
qed

lemma countLoop_invariant: "countInvariant s (foldl countStep (1, 0, False, []) s)"
proof (induction s rule: rev_induct)
  case Nil
  show ?case by (simp add: countInvariant_def topLevelCommas_def bracketDepth_def literalOpen_def)
next
  case (snoc c s)
  then show ?case by (simp add: countStep_invariant)
qed

lemma countArguments_eq:
  "countArguments s = (if isBlank s then 0 else 1 + length (topLevelCommas s))"
proof -
  obtain count depth inString stringChar
    where st: "foldl countStep (1, 0, False, []) s = (count, depth, inString, stringChar)"
    by (cases "foldl countStep (1, 0, False, []) s") auto
  with countLoop_invariant [of s] have "count = 1 + length (topLevelCommas s)"
    by (simp add: countInvariant_def)
  with st show ?thesis
    by (simp add: countArguments_def trim_Nil_iff)
qed

lemma countArguments_example: "countArguments ''a, [1,2], {x:1,y:2}'' = 3"
  by (simp add: countArguments_def trim_def isWhiteSpace_def isQuote_def isOpenBracket_def
      isCloseBracket_def)

text \<open>
  Claim C4. For every argument text, \<open>countArguments\<close> returns 0 when the text is blank
  (white space only) and otherwise 1 plus the number of commas that stand at bracket
  depth 0 outside single- or double-quoted string literals, where the depth is one
  counter for round, square and curly brackets and a literal is closed only by the
  quote character that opened it. For \<open>a, [1,2], {x:1,y:2}\<close> the result is 3.
\<close>

theorem countArguments_top_level_commas:
  "countArguments s = (if isBlank s then 0 else 1 + length (topLevelCommas s))
   \<and> countArguments ''a, [1,2], {x:1,y:2}'' = 3"
  using countArguments_eq countArguments_example by simp

theorem countArguments_top_level_commas_witness:
  "countArguments ''f(x, y), \"a,b\", ')', z'' = 4
   \<and> topLevelCommas ''f(x, y), \"a,b\", ')', z'' = [7, 14, 19]"
proof -
  have blank: "isBlank ''f(x, y), \"a,b\", ')', z'' = False"
    by code_simp
  have commas: "topLevelCommas ''f(x, y), \"a,b\", ')', z'' = [7, 14, 19]"
    by code_simp
  show ?thesis
    using countArguments_top_level_commas [of "''f(x, y), \"a,b\", ')', z''"]
    unfolding blank commas by simp
qed

subsection \<open>generateArgumentString\<close>

lemma splitOn_not_Nil: "splitOn sep s \<noteq> []"
  by (induction s) (auto split: list.splits)

lemma splitOn_single: "sep \<notin> set s \<Longrightarrow> splitOn sep s = [s]"
  by (induction s) auto

lemma splitOn_many: "sep \<in> set s \<Longrightarrow> length (splitOn sep s) \<ge> 2"
proof (induction s)
  case Nil
  then show ?case by simp
next
  case (Cons c cs)
  show ?case
  proof (cases "c = sep")
    case True
    then show ?thesis using splitOn_not_Nil [of sep cs] by (cases "splitOn sep cs") auto
  next
    case False
    with Cons show ?thesis by (cases "splitOn sep cs") auto
  qed
qed

lemma takeWhile_snoc_after:
  "takeWhile P (xs @ [x]) = (if list_all P xs then xs @ (if P x then [x] else []) else takeWhile P xs)"
  by (induction xs) auto

lemma last_splitOn: "last (splitOn sep s) = rev (takeWhile (\<lambda>c. c \<noteq> sep) (rev s))"
proof (induction s)
  case Nil
  show ?case by simp
next
  case (Cons c cs)
  show ?case
  proof (cases "sep \<in> set cs")
    case True
    then have two: "length (splitOn sep cs) \<ge> 2" by (rule splitOn_many)
    then obtain p q qs where sp: "splitOn sep cs = p # q # qs"
      by (cases "splitOn sep cs"; cases "tl (splitOn sep cs)") auto
    have "\<not> list_all (\<lambda>c. c \<noteq> sep) (rev cs)" using True by (auto simp: list_all_iff)
    then have "takeWhile (\<lambda>c. c \<noteq> sep) (rev (c # cs)) = takeWhile (\<lambda>c. c \<noteq> sep) (rev cs)"
      by (simp add: takeWhile_snoc_after)
    moreover have "last (splitOn sep (c # cs)) = last (splitOn sep cs)"
      using sp by simp
    ultimately show ?thesis using Cons by simp
  next
    case False
    then have sp: "splitOn sep cs = [cs]" by (rule splitOn_single)
    have all: "list_all (\<lambda>c. c \<noteq> sep) (rev cs)" using False by (auto simp: list_all_iff)
    show ?thesis
      using sp all by (simp add: takeWhile_snoc_after)
  qed
qed

lemma lowerFirst_eq: "toLowerCase (charAt s 0) @ substringFrom s 1 = lowerFirst s"
  by (cases s) (simp_all add: toLowerCase_def charAt_def substringFrom_def lowerFirst_def)

lemma stripTypeBrackets_eq: "stripTypeBrackets t = filter (\<lambda>c. c \<notin> set ''<>[]'') t"
  by (simp add: stripTypeBrackets_def)

lemma lowerFirst_arg: "lowerFirst ''arg'' = ''arg''"
  by (simp add: lowerFirst_def toLowerCaseChar_def)

lemma lowerFirst_Nil_iff: "lowerFirst s = [] \<longleftrightarrow> s = []"
  by (cases s) (simp_all add: lowerFirst_def)

lemma typeToVariableName_eq: "typeToVariableName p = typeDerivedIdentifier (type p)"
proof -
  let ?l = "last (splitOn CHR ''.'' (stripTypeBrackets (type p)))"
  have l: "?l = afterLastDot (filter (\<lambda>c. c \<notin> set ''<>[]'') (type p))"
    by (simp only: last_splitOn afterLastDot_def stripTypeBrackets_eq)
  have "typeToVariableName p = lowerFirst (if ?l = [] then ''arg'' else ?l)"
    unfolding typeToVariableName_def pop_def Let_def lowerFirst_eq
    using splitOn_not_Nil [of "CHR ''.''" "stripTypeBrackets (type p)"] by simp
  also have "\<dots> = typeDerivedIdentifier (type p)"
    unfolding typeDerivedIdentifier_def Let_def l [symmetric]
    by (simp add: lowerFirst_arg lowerFirst_Nil_iff)
  finally show ?thesis .
qed

lemma map_zip_upt: "map (\<lambda>(p, i). f i p) (zip ps [0..<length ps]) = map (\<lambda>i. f i (ps ! i)) [0..<length ps]"
  by (rule nth_equalityI) simp_all

lemma generateArgumentString_eq:
  "generateArgumentString options ps
     = join '', '' (map (\<lambda>i. parameterText options i (ps ! i)) [0..<length ps])"
proof -
  have names: "map name ps = map (\<lambda>i. name (ps ! i)) [0..<length ps]"
    by (rule nth_equalityI) simp_all
  have types: "map typeToVariableName ps = map (\<lambda>i. typeDerivedIdentifier (type (ps ! i))) [0..<length ps]"
    by (rule nth_equalityI) (simp_all add: typeToVariableName_eq)
  have args: "map (\<lambda>(p, i). ''arg'' @ numberToString (i + 1)) (zip ps [0..<length ps])
     = map (\<lambda>i. positionalPlaceholder i) [0..<length ps]"
    by (rule nth_equalityI) (simp_all add: positionalPlaceholder_def)
  show ?thesis
    unfolding generateArgumentString_def parameterText_def
    by (simp only: names types args if_distrib cong: if_cong) (simp cong: map_cong)
qed

text \<open>
  Claim C3. For every parameter list (the non-empty ones among them) the synthesizer
  returns the per-parameter texts joined by a comma and a space, where the text of the
  parameter at position \<open>i\<close> is its name if \<open>useParameterNames\<close> is set, else the
  type-derived identifier if \<open>fallbackToTypeName\<close> is set, else \<open>arg\<close> followed by
  \<open>i + 1\<close>; with \<open>useParameterNames\<close> set the names are used whatever
  \<open>fallbackToTypeName\<close> is.
\<close>

theorem generateArgumentString_precedence:
  "generateArgumentString options ps
     = join '', '' (map (\<lambda>i. parameterText options i (ps ! i)) [0..<length ps])
   \<and> (useParameterNames options \<longrightarrow>
        generateArgumentString options ps = join '', '' (map name ps))"
proof
  show "generateArgumentString options ps
          = join '', '' (map (\<lambda>i. parameterText options i (ps ! i)) [0..<length ps])"
    by (rule generateArgumentString_eq)
  show "useParameterNames options \<longrightarrow>
          generateArgumentString options ps = join '', '' (map name ps)"
    by (simp add: generateArgumentString_def)
qed

theorem generateArgumentString_precedence_witness:
  "useParameterNames \<lparr> enableCompletion = True, useParameterNames = True, fallbackToTypeName = True \<rparr>
   \<and> generateArgumentString
         \<lparr> enableCompletion = True, useParameterNames = True, fallbackToTypeName = True \<rparr>
         [\<lparr> name = ''items'', type = ''java.util.List<String>'', index = 0 \<rparr>,
          \<lparr> name = ''n'', type = ''int[]'', index = 1 \<rparr>] = ''items, n''
   \<and> generateArgumentString
         \<lparr> enableCompletion = True, useParameterNames = False, fallbackToTypeName = True \<rparr>
         [\<lparr> name = ''items'', type = ''java.util.List<String>'', index = 0 \<rparr>,
          \<lparr> name = ''n'', type = ''int[]'', index = 1 \<rparr>] = ''listString, int''
   \<and> generateArgumentString
         \<lparr> enableCompletion = True, useParameterNames = False, fallbackToTypeName = False \<rparr>
         [\<lparr> name = ''items'', type = ''java.util.List<String>'', index = 0 \<rparr>,
          \<lparr> name = ''n'', type = ''int[]'', index = 1 \<rparr>] = ''arg1, arg2''"
proof -
  let ?ps = "[\<lparr> name = ''items'', type = ''java.util.List<String>'', index = 0 \<rparr>,
              \<lparr> name = ''n'', type = ''int[]'', index = 1 \<rparr>]"
  let ?names = "\<lparr> enableCompletion = True, useParameterNames = True, fallbackToTypeName = True \<rparr>"
  let ?types = "\<lparr> enableCompletion = True, useParameterNames = False, fallbackToTypeName = True \<rparr>"
  let ?plain = "\<lparr> enableCompletion = True, useParameterNames = False, fallbackToTypeName = False \<rparr>"
  have n: "join '', '' (map name ?ps) = ''items, n''"
    by simp
  have t: "join '', '' (map (\<lambda>i. parameterText ?types i (?ps ! i)) [0..<length ?ps])
             = ''listString, int''"
    by code_simp
  have p: "join '', '' (map (\<lambda>i. parameterText ?plain i (?ps ! i)) [0..<length ?ps])
             = ''arg1, arg2''"
    by code_simp
  have a: "generateArgumentString ?names ?ps = ''items, n''"
    using conjunct2 [OF generateArgumentString_precedence [of ?names ?ps]] n by simp
  have b: "generateArgumentString ?types ?ps = ''listString, int''"
    by (rule trans [OF conjunct1 [OF generateArgumentString_precedence [of ?types ?ps]] t])
  have c: "generateArgumentString ?plain ?ps = ''arg1, arg2''"
    by (rule trans [OF conjunct1 [OF generateArgumentString_precedence [of ?plain ?ps]] p])
  show ?thesis
    using a b c by simp
qed

subsection \<open>parseParameterLabel\<close>

lemma splitWhere_not_Nil: "splitWhere P s \<noteq> []"
  by (induction s) (auto split: list.splits)

lemma splitWhere_none: "\<forall>c\<in>set u. \<not> P c \<Longrightarrow> splitWhere P u = [u]"
  by (induction u) auto

lemma splitWhere_prefix:
  "\<forall>c\<in>set u. \<not> P c \<Longrightarrow> P w \<Longrightarrow> splitWhere P (u @ w # v) = u # splitWhere P v"
  by (induction u) auto

lemma tokens_prefix:
  "\<forall>c\<in>set u. \<not> isWhiteSpace c \<Longrightarrow> isWhiteSpace w \<Longrightarrow>
     tokens (u @ w # v) = (if u = [] then [] else [u]) @ tokens v"
  by (simp add: tokens_def splitWhere_prefix)

lemma tokens_none: "\<forall>c\<in>set u. \<not> isWhiteSpace c \<Longrightarrow> tokens u = (if u = [] then [] else [u])"
  by (simp add: tokens_def splitWhere_none)

lemma tokens_dropWhile: "tokens (dropWhile isWhiteSpace v) = tokens v"
  by (induction v) (auto simp: tokens_def)

lemma splitWhere_snoc: "P w \<Longrightarrow> splitWhere P (v @ [w]) = splitWhere P v @ [[]]"
  using splitWhere_not_Nil [of P]
  by (induction v) (auto split: list.splits)

lemma tokens_snoc_space: "isWhiteSpace w \<Longrightarrow> tokens (v @ [w]) = tokens v"
  by (simp add: tokens_def splitWhere_snoc)

lemma tokens_rev_dropWhile: "tokens (rev (dropWhile isWhiteSpace (rev v))) = tokens v"
proof (induction v rule: rev_induct)
  case Nil
  show ?case by simp
next
  case (snoc w v)
  then show ?case by (simp add: tokens_snoc_space)
qed

lemma tokens_trim: "tokens (trim s) = tokens s"
  by (simp add: trim_def tokens_rev_dropWhile tokens_dropWhile)

lemma splitWhiteSpace_done:
  "dropWhile (\<lambda>c. \<not> isWhiteSpace c) t = [] \<Longrightarrow> splitWhiteSpace t = [t]"
  by (subst splitWhiteSpace.simps) (simp add: Let_def)

lemma splitWhiteSpace_more:
  assumes "dropWhile (\<lambda>c. \<not> isWhiteSpace c) t \<noteq> []"
  shows "splitWhiteSpace t = takeWhile (\<lambda>c. \<not> isWhiteSpace c) t
        # splitWhiteSpace (dropWhile isWhiteSpace (dropWhile (\<lambda>c. \<not> isWhiteSpace c) t))"
  using assms splitWhiteSpace.simps [of t] by (simp only: Let_def if_False)

lemma splitWhiteSpace_Nil: "splitWhiteSpace [] = [[]]"
  by (simp add: splitWhiteSpace_done)

lemma splitWhiteSpace_not_Nil: "splitWhiteSpace t \<noteq> []"
  by (cases "dropWhile (\<lambda>c. \<not> isWhiteSpace c) t = []")
    (simp_all only: splitWhiteSpace_done splitWhiteSpace_more list.distinct not_False_eq_True)

lemma splitWhiteSpace_single: "splitWhiteSpace t = [w] \<Longrightarrow> t = w"
proof (cases "dropWhile (\<lambda>c. \<not> isWhiteSpace c) t = []")
  case True
  assume "splitWhiteSpace t = [w]"
  with splitWhiteSpace_done [OF True] show ?thesis by simp
next
  case False
  assume "splitWhiteSpace t = [w]"
  with splitWhiteSpace_more [OF False]
  have "splitWhiteSpace (dropWhile isWhiteSpace (dropWhile (\<lambda>c. \<not> isWhiteSpace c) t)) = []"
    by simp
  with splitWhiteSpace_not_Nil show ?thesis by blast
qed

lemma filter_splitWhiteSpace: "filter (\<lambda>w. w \<noteq> []) (splitWhiteSpace t) = tokens t"
proof (induction t rule: splitWhiteSpace.induct)
  case (1 s)
  let ?u = "takeWhile (\<lambda>c. \<not> isWhiteSpace c) s"
  let ?rest = "dropWhile (\<lambda>c. \<not> isWhiteSpace c) s"
  have s: "s = ?u @ ?rest" by simp
  have u: "\<forall>c\<in>set ?u. \<not> isWhiteSpace c" by (auto dest: set_takeWhileD)
  show ?case
  proof (cases "?rest = []")
    case True
    then have all: "\<forall>c\<in>set s. \<not> isWhiteSpace c" by simp
    show ?thesis
      by (simp only: splitWhiteSpace_done [OF True] tokens_none [OF all]) simp
  next
    case False
    then obtain w v where wv: "?rest = w # v" by (cases ?rest) auto
    then have w: "isWhiteSpace w" unfolding dropWhile_eq_Cons_conv by simp
    have ih: "filter (\<lambda>w. w \<noteq> []) (splitWhiteSpace (dropWhile isWhiteSpace ?rest))
                = tokens (dropWhile isWhiteSpace ?rest)"
      using 1 [OF refl refl False] .
    have "tokens s = tokens (?u @ w # v)" using s wv by simp
    also have "\<dots> = (if ?u = [] then [] else [?u]) @ tokens v"
      using u w by (rule tokens_prefix)
    also have "tokens v = tokens (dropWhile isWhiteSpace ?rest)"
      using w tokens_dropWhile [of "w # v"] tokens_dropWhile [of v] unfolding wv by simp
    finally have ts: "tokens s = (if ?u = [] then [] else [?u]) @ tokens (dropWhile isWhiteSpace ?rest)" .
    show ?thesis
      unfolding splitWhiteSpace_more [OF False] ts using ih by simp
  qed
qed

lemma splitWhiteSpace_pieces:
  "t \<noteq> [] \<Longrightarrow> \<not> isWhiteSpace (hd t) \<Longrightarrow> \<not> isWhiteSpace (last t)
     \<Longrightarrow> [] \<notin> set (splitWhiteSpace t)"
proof (induction t rule: splitWhiteSpace.induct)
  case (1 s)
  let ?u = "takeWhile (\<lambda>c. \<not> isWhiteSpace c) s"
  let ?rest = "dropWhile (\<lambda>c. \<not> isWhiteSpace c) s"
  have s: "s = ?u @ ?rest" by simp
  have une: "?u \<noteq> []" using "1.prems" by (cases s) auto
  show ?case
  proof (cases "?rest = []")
    case True
    with "1.prems" show ?thesis by (simp add: splitWhiteSpace_done)
  next
    case False
    let ?t = "dropWhile isWhiteSpace ?rest"
    have "last (?u @ ?rest) = last ?rest" using False by (rule last_appendR)
    then have lr: "last ?rest = last s" by simp
    have tne: "?t \<noteq> []"
    proof
      assume "?t = []"
      then have "\<forall>c\<in>set ?rest. isWhiteSpace c" unfolding dropWhile_eq_Nil_conv .
      then have "isWhiteSpace (last ?rest)" using False last_in_set by blast
      then have "isWhiteSpace (last s)" by (simp only: lr)
      with "1.prems" show False by blast
    qed
    have hd: "\<not> isWhiteSpace (hd ?t)" using tne by (rule hd_dropWhile)
    have "last (takeWhile isWhiteSpace ?rest @ ?t) = last ?t" using tne by (rule last_appendR)
    then have "last ?t = last ?rest" by simp
    then have lst: "\<not> isWhiteSpace (last ?t)" using lr "1.prems" by simp
    have "[] \<notin> set (splitWhiteSpace ?t)"
      using 1(1) [OF refl refl False tne hd lst] .
    with une show ?thesis unfolding splitWhiteSpace_more [OF False] by simp
  qed
qed

lemma trim_ends:
  assumes "trim s \<noteq> []"
  shows "\<not> isWhiteSpace (hd (trim s))" "\<not> isWhiteSpace (last (trim s))"
proof -
  let ?d = "dropWhile isWhiteSpace s"
  let ?r = "dropWhile isWhiteSpace (rev ?d)"
  have r: "?r \<noteq> []" using assms by (simp add: trim_def)
  then have "\<not> isWhiteSpace (hd ?r)" by (rule hd_dropWhile)
  then show "\<not> isWhiteSpace (last (trim s))"
    using r by (simp add: trim_def last_rev)
  have d: "?d \<noteq> []" using r by (auto simp del: dropWhile_eq_Nil_conv)
  then have hd: "\<not> isWhiteSpace (hd ?d)" by (rule hd_dropWhile)
  have "last (takeWhile isWhiteSpace (rev ?d) @ ?r) = last ?r" using r by (rule last_appendR)
  then have "last (rev ?d) = last ?r" by simp
  then have "hd ?d = last ?r" using d by (simp add: last_rev)
  then show "\<not> isWhiteSpace (hd (trim s))"
    using hd r by (simp add: trim_def hd_rev)
qed

lemma splitWhiteSpace_trim:
  "splitWhiteSpace (trim s) = (if tokens s = [] then [[]] else tokens s)"
proof (cases "trim s = []")
  case True
  then have "tokens s = []" using tokens_trim [of s] by (simp add: tokens_def)
  with True show ?thesis by (simp add: splitWhiteSpace_done)
next
  case False
  then have "[] \<notin> set (splitWhiteSpace (trim s))"
    using trim_ends [OF False] by (intro splitWhiteSpace_pieces)
  then have "filter (\<lambda>w. w \<noteq> []) (splitWhiteSpace (trim s)) = splitWhiteSpace (trim s)"
    by (auto simp: filter_id_conv)
  then have eq: "splitWhiteSpace (trim s) = tokens s"
    using filter_splitWhiteSpace [of "trim s"] by (simp add: tokens_trim)
  with splitWhiteSpace_not_Nil [of "trim s"] show ?thesis by simp
qed

lemma tokens_nonempty: "w \<in> set (tokens s) \<Longrightarrow> w \<noteq> []"
  by (simp add: tokens_def)

lemma tokens_single_trim: "tokens s = [w] \<Longrightarrow> trim s = w"
  by (rule splitWhiteSpace_single) (simp add: splitWhiteSpace_trim)

lemma tokens_Nil_trim: "tokens s = [] \<Longrightarrow> trim s = []"
  by (rule splitWhiteSpace_single) (simp add: splitWhiteSpace_trim)

lemma join_nonempty: "ws \<noteq> [] \<Longrightarrow> [] \<notin> set ws \<Longrightarrow> join sep ws \<noteq> []"
  by (induction sep ws rule: join.induct) auto

lemma parseParameterLabel_tokens:
  "parseParameterLabel lbl =
     (if length (tokens lbl) \<ge> 2 then (last (tokens lbl), join '' '' (butlast (tokens lbl)))
      else if length (tokens lbl) = 1 then (hd (tokens lbl), ''Object'')
      else ([], ''Object''))"
proof -
  consider (none) "tokens lbl = []" | (one) w where "tokens lbl = [w]"
    | (many) "length (tokens lbl) \<ge> 2"
    by (cases "tokens lbl"; cases "tl (tokens lbl)") auto
  then show ?thesis
  proof cases
    case none
    then have "trim lbl = []" by (rule tokens_Nil_trim)
    with none show ?thesis
      by (simp add: parseParameterLabel_def splitWhiteSpace_Nil)
  next
    case one
    then have tr: "trim lbl = w" by (rule tokens_single_trim)
    have "splitWhiteSpace (trim lbl) = [w]" using one by (simp add: splitWhiteSpace_trim)
    then have sp: "splitWhiteSpace w = [w]" by (simp only: tr)
    show ?thesis
      by (simp add: parseParameterLabel_def tr sp one)
  next
    case many
    then have ne: "tokens lbl \<noteq> []" by auto
    with many show ?thesis
      by (simp add: parseParameterLabel_def splitWhiteSpace_trim last_conv_nth butlast_conv_take
          Let_def)
  qed
qed

lemma tokens_butlast_join:
  assumes "length (tokens s) \<ge> 2"
  shows "join sep (butlast (tokens s)) \<noteq> []"
proof (rule join_nonempty)
  show "butlast (tokens s) \<noteq> []"
    using assms by (cases "tokens s"; cases "tl (tokens s)") auto
  show "[] \<notin> set (butlast (tokens s))"
    using tokens_nonempty [of "[]" s] in_set_butlastD [of "[]" "tokens s"] by blast
qed

lemma tokens_last_nonempty: "tokens s \<noteq> [] \<Longrightarrow> last (tokens s) \<noteq> []"
  using tokens_nonempty [of "last (tokens s)" s] by simp

lemma toMethodParameter_eq:
  "toMethodParameter signatureLabel (param, i) =
     (let ts = tokens (trim (labelText signatureLabel param))
      in if length ts \<ge> 2 then \<lparr> name = last ts, type = join '' '' (butlast ts), index = i \<rparr>
         else if length ts = 1 then \<lparr> name = hd ts, type = ''Object'', index = i \<rparr>
         else \<lparr> name = ''arg'' @ numberToString (i + 1), type = ''Object'', index = i \<rparr>)"
proof -
  let ?l = "labelText signatureLabel param"
  have unfold: "toMethodParameter signatureLabel (param, i) =
     \<lparr> name = (if fst (parseParameterLabel ?l) = [] then ''arg'' @ numberToString (i + 1)
                else fst (parseParameterLabel ?l)),
       type = (if snd (parseParameterLabel ?l) = [] then ''Object''
               else snd (parseParameterLabel ?l)),
       index = i \<rparr>"
    by (simp add: toMethodParameter_def labelText_def split_beta Let_def)
  consider (none) "tokens ?l = []" | (one) "length (tokens ?l) = 1"
    | (many) "length (tokens ?l) \<ge> 2"
    by (cases "tokens ?l"; cases "tl (tokens ?l)") auto
  then show ?thesis
  proof cases
    case none
    then show ?thesis
      unfolding unfold by (simp add: parseParameterLabel_tokens tokens_trim)
  next
    case one
    then have "hd (tokens ?l) \<noteq> []"
      using tokens_nonempty [of "hd (tokens ?l)" ?l] by (cases "tokens ?l") auto
    with one show ?thesis
      unfolding unfold by (simp add: parseParameterLabel_tokens tokens_trim)
  next
    case many
    then have "tokens ?l \<noteq> []" by auto
    then have "last (tokens ?l) \<noteq> []" by (rule tokens_last_nonempty)
    with many tokens_butlast_join [OF many, of "'' ''"] show ?thesis
      unfolding unfold by (simp add: parseParameterLabel_tokens tokens_trim Let_def)
  qed
qed

lemma toMethodParameter_nonempty:
  "name (toMethodParameter signatureLabel (param, i)) \<noteq> []
   \<and> type (toMethodParameter signatureLabel (param, i)) \<noteq> []"
  by (simp add: toMethodParameter_def split_beta Let_def)

lemma getParametersFromLanguageServer_Reply:
  assumes "activeSignature h < length (signatures h)"
    and "parameters (signatures h ! activeSignature h) \<noteq> []"
  shows "getParametersFromLanguageServer (Reply h) =
     Some (map (\<lambda>k. toMethodParameter (sigLabel (signatures h ! activeSignature h))
                       (parameters (signatures h ! activeSignature h) ! k, k))
             [0..<length (parameters (signatures h ! activeSignature h))])"
proof -
  let ?a = "signatures h ! activeSignature h"
  have "map (toMethodParameter (sigLabel ?a)) (zip (parameters ?a) [0..<length (parameters ?a)])
      = map (\<lambda>k. toMethodParameter (sigLabel ?a) (parameters ?a ! k, k)) [0..<length (parameters ?a)]"
    by (rule nth_equalityI) simp_all
  with assms show ?thesis
    by (auto simp: getParametersFromLanguageServer_def Let_def)
qed

text \<open>
  Claim C9. The label of a parameter supplied by the signature-help query (a string,
  or a range of the signature's label) is trimmed and cut at white space: with two or
  more tokens the last one is the name and the others, joined by single spaces, are
  the type; with one token it is the name and the type is \<open>Object\<close>; with none
  (the name would be empty) the name is \<open>arg\<close> followed by the index plus one and
  the type is \<open>Object\<close>. Neither name nor type of the result is ever empty, and
  the parameter at position \<open>k\<close> of the active signature gets the index \<open>k\<close>.
\<close>

theorem parseParameterLabel_tokens_defaults:
  "toMethodParameter signatureLabel (param, i) =
     (let ts = tokens (trim (labelText signatureLabel param))
      in if length ts \<ge> 2 then \<lparr> name = last ts, type = join '' '' (butlast ts), index = i \<rparr>
         else if length ts = 1 then \<lparr> name = hd ts, type = ''Object'', index = i \<rparr>
         else \<lparr> name = ''arg'' @ numberToString (i + 1), type = ''Object'', index = i \<rparr>)
   \<and> name (toMethodParameter signatureLabel (param, i)) \<noteq> []
   \<and> type (toMethodParameter signatureLabel (param, i)) \<noteq> []
   \<and> (activeSignature h < length (signatures h)
        \<and> parameters (signatures h ! activeSignature h) \<noteq> [] \<longrightarrow>
      getParametersFromLanguageServer (Reply h) =
        Some (map (\<lambda>k. toMethodParameter (sigLabel (signatures h ! activeSignature h))
                          (parameters (signatures h ! activeSignature h) ! k, k))
                [0..<length (parameters (signatures h ! activeSignature h))]))"
  using toMethodParameter_eq [of signatureLabel param i]
    toMethodParameter_nonempty [of signatureLabel param i]
    getParametersFromLanguageServer_Reply [of h]
  by blast

theorem parseParameterLabel_tokens_defaults_witness:
  "toMethodParameter ''m(java.util.Map<K, V>  m, int)'' (LabelRange 2 24, 0)
     = \<lparr> name = ''m'', type = ''java.util.Map<K, V>'', index = 0 \<rparr>
   \<and> toMethodParameter ''m(java.util.Map<K, V>  m, int)'' (LabelString '' int '', 1)
     = \<lparr> name = ''int'', type = ''Object'', index = 1 \<rparr>
   \<and> toMethodParameter ''m(java.util.Map<K, V>  m, int)'' (LabelString ''  '', 2)
     = \<lparr> name = ''arg3'', type = ''Object'', index = 2 \<rparr>
   \<and> getParametersFromLanguageServer
       (Reply \<lparr> signatures = [\<lparr> sigLabel = ''m(java.util.Map<K, V>  m, int)'',
                                  parameters = [LabelRange 2 24, LabelString '' int ''] \<rparr>],
                 activeSignature = 0 \<rparr>)
     = Some [\<lparr> name = ''m'', type = ''java.util.Map<K, V>'', index = 0 \<rparr>,
             \<lparr> name = ''int'', type = ''Object'', index = 1 \<rparr>]"
proof -
  let ?sig = "''m(java.util.Map<K, V>  m, int)''"
  let ?h = "\<lparr> signatures = [\<lparr> sigLabel = ?sig,
                                parameters = [LabelRange 2 24, LabelString '' int ''] \<rparr>],
               activeSignature = 0 \<rparr>"
  have t0: "tokens (trim (labelText ?sig (LabelRange 2 24))) = [''java.util.Map<K,'', ''V>'', ''m'']"
    by code_simp
  have t1: "tokens (trim (labelText ?sig (LabelString '' int ''))) = [''int'']"
    by code_simp
  have t2: "tokens (trim (labelText ?sig (LabelString ''  ''))) = []"
    by code_simp
  have n3: "numberToString 3 = ''3''"
    by code_simp
  have p0: "toMethodParameter ?sig (LabelRange 2 24, 0)
              = \<lparr> name = ''m'', type = ''java.util.Map<K, V>'', index = 0 \<rparr>"
    using conjunct1 [OF parseParameterLabel_tokens_defaults [of ?sig "LabelRange 2 24" 0 ?h]]
    unfolding t0 by simp
  have p1: "toMethodParameter ?sig (LabelString '' int '', 1)
              = \<lparr> name = ''int'', type = ''Object'', index = 1 \<rparr>"
    using conjunct1 [OF parseParameterLabel_tokens_defaults [of ?sig "LabelString '' int ''" 1 ?h]]
    unfolding t1 by simp
  have p2: "toMethodParameter ?sig (LabelString ''  '', 2)
              = \<lparr> name = ''arg3'', type = ''Object'', index = 2 \<rparr>"
    using conjunct1 [OF parseParameterLabel_tokens_defaults [of ?sig "LabelString ''  ''" 2 ?h]]
    unfolding t2 by (simp add: n3)
  have all: "getParametersFromLanguageServer (Reply ?h)
      = Some [toMethodParameter ?sig (LabelRange 2 24, 0),
              toMethodParameter ?sig (LabelString '' int '', 1)]"
    using parseParameterLabel_tokens_defaults [of ?sig "LabelRange 2 24" 0 ?h]
    by (simp add: upt_rec)
  show ?thesis
    using p0 p1 p2 all by simp
qed

subsection \<open>findMethodCallContext\<close>

lemma balanced_iff:
  "balanced s \<longleftrightarrow> parenBalance s = 0 \<and> (\<forall>k\<le>length s. 0 \<le> parenBalance (take k s))"
  by (auto simp: balanced_def list_all_iff less_Suc_eq_le)

lemma parenBalance_append: "parenBalance (a @ b) = parenBalance a + parenBalance b"
  by (simp add: parenBalance_def)

lemma parenBalance_Nil: "parenBalance [] = 0"
  by (simp add: parenBalance_def)

lemma parenBalance_Cons: "parenBalance (c # s) = parenDelta c + parenBalance s"
  by (simp add: parenBalance_def)

lemma slice_snoc:
  assumes "q \<le> j"
  shows "parenBalance (slice t q (Suc j)) = parenBalance (slice t q j) + optDelta (jsIndex t j)"
proof (cases "j < length t")
  case True
  then have "j - q < length (drop q t)" using assms by simp
  then have "take (Suc (j - q)) (drop q t) = take (j - q) (drop q t) @ [drop q t ! (j - q)]"
    by (rule take_Suc_conv_app_nth)
  moreover have "drop q t ! (j - q) = t ! j" using True assms by simp
  moreover have "Suc j - q = Suc (j - q)" using assms by simp
  ultimately show ?thesis
    using True by (simp add: slice_def parenBalance_append parenBalance_Cons parenBalance_Nil jsIndex_def)
next
  case False
  then show ?thesis by (simp add: slice_def jsIndex_def)
qed

lemma slice_empty: "b \<le> a \<Longrightarrow> slice t a b = []"
  by (simp add: slice_def)

lemma backwardBody_cases:
  "backwardBody ch d = None \<longleftrightarrow> ch = Some CHR ''('' \<and> d = 0"
  "backwardBody ch d = Some d' \<longleftrightarrow>
     (ch = Some CHR '')'' \<and> d' = d + 1) \<or> (ch = Some CHR ''('' \<and> d \<noteq> 0 \<and> d' = d - 1)
     \<or> (ch \<noteq> Some CHR '')'' \<and> ch \<noteq> Some CHR ''('' \<and> d' = d)"
  by (auto simp: backwardBody_def)

lemma backwardBody_delta: "backwardBody ch d = Some d' \<Longrightarrow> d' = d - optDelta ch"
  by (cases ch) (auto simp: backwardBody_def parenDelta_def split: if_splits)

lemma backwardBody_stop: "backwardBody ch d = None \<Longrightarrow> ch = Some CHR ''('' \<and> d = 0"
  by (auto simp: backwardBody_def split: if_splits)

lemma backwardBody_nonneg: "backwardBody ch d = Some d' \<Longrightarrow> 0 \<le> d \<Longrightarrow> 0 \<le> d'"
  by (auto simp: backwardBody_def split: if_splits)

lemma scanBackward_Some:
  "scanBackward t i d = Some p \<Longrightarrow> 0 \<le> d \<Longrightarrow>
     p \<le> i \<and> jsIndex t p = Some CHR ''(''
     \<and> parenBalance (slice t (p + 1) (i + 1)) = d
     \<and> (\<forall>q. p < q \<and> q \<le> i \<longrightarrow> parenBalance (slice t q (i + 1)) \<le> d)"
proof (induction t i d rule: scanBackward.induct)
  case (1 t d)
  then show ?case
    by (auto simp: slice_empty parenBalance_Nil dest: backwardBody_stop split: option.splits)
next
  case (2 t i d)
  show ?case
  proof (cases "backwardBody (jsIndex t (Suc i)) d")
    case None
    with 2 have "p = Suc i" by simp
    with None show ?thesis
      by (auto simp: slice_empty parenBalance_Nil dest: backwardBody_stop)
  next
    case (Some d')
    with 2 have rec: "scanBackward t i d' = Some p" by simp
    have d': "d' = d - optDelta (jsIndex t (Suc i))" using Some by (rule backwardBody_delta)
    have "0 \<le> d'" using Some "2.prems"(2) by (rule backwardBody_nonneg)
    with 2 Some rec have ih: "p \<le> i" "jsIndex t p = Some CHR ''(''"
      "parenBalance (slice t (p + 1) (i + 1)) = d'"
      "\<forall>q. p < q \<and> q \<le> i \<longrightarrow> parenBalance (slice t q (i + 1)) \<le> d'"
      by auto
    have b1: "parenBalance (slice t (p + 1) (Suc i + 1)) = d"
      using slice_snoc [of "p + 1" "Suc i" t] ih d' by simp
    have b2: "parenBalance (slice t q (Suc i + 1)) \<le> d" if "p < q" "q \<le> Suc i" for q
    proof (cases "q \<le> i")
      case True
      with that ih have "parenBalance (slice t q (i + 1)) \<le> d'" by simp
      then show ?thesis using slice_snoc [of q "Suc i" t] True d' by simp
    next
      case False
      with that have q: "q = Suc i" by simp
      have "parenBalance (slice t (Suc i) (Suc (Suc i))) = optDelta (jsIndex t (Suc i))"
        using slice_snoc [of "Suc i" "Suc i" t] by (simp add: slice_empty parenBalance_Nil)
      then show ?thesis using q d' \<open>0 \<le> d'\<close> by simp
    qed
    show ?thesis using ih b1 b2 by auto
  qed
qed

lemma scanBackward_None:
  "scanBackward t i d = None \<Longrightarrow> 0 \<le> d \<Longrightarrow>
     (\<forall>q. q \<le> i \<longrightarrow> parenBalance (slice t q (i + 1)) \<le> d)"
proof (induction t i d rule: scanBackward.induct)
  case (1 t d)
  then obtain d' where b: "backwardBody (jsIndex t 0) d = Some d'"
    by (auto split: option.splits)
  have d': "d' = d - optDelta (jsIndex t 0)" using b by (rule backwardBody_delta)
  have "0 \<le> d'" using b "1.prems"(2) by (rule backwardBody_nonneg)
  moreover have "parenBalance (slice t 0 (Suc 0)) = optDelta (jsIndex t 0)"
    using slice_snoc [of 0 0 t] by (simp add: slice_empty parenBalance_Nil)
  ultimately show ?case using d' by simp
next
  case (2 t i d)
  then obtain d' where b: "backwardBody (jsIndex t (Suc i)) d = Some d'"
    and rec: "scanBackward t i d' = None"
    by (auto split: option.splits)
  have d': "d' = d - optDelta (jsIndex t (Suc i))" using b by (rule backwardBody_delta)
  have nn: "0 \<le> d'" using b "2.prems"(2) by (rule backwardBody_nonneg)
  have ih: "\<forall>q. q \<le> i \<longrightarrow> parenBalance (slice t q (i + 1)) \<le> d'"
    using "2.IH" [OF b rec nn] .
  have "parenBalance (slice t q (Suc i + 1)) \<le> d" if "q \<le> Suc i" for q
  proof (cases "q \<le> i")
    case True
    with ih have "parenBalance (slice t q (i + 1)) \<le> d'" by simp
    then show ?thesis using slice_snoc [of q "Suc i" t] True d' by simp
  next
    case False
    with that have q: "q = Suc i" by simp
    have "parenBalance (slice t (Suc i) (Suc (Suc i))) = optDelta (jsIndex t (Suc i))"
      using slice_snoc [of "Suc i" "Suc i" t] by (simp add: slice_empty parenBalance_Nil)
    then show ?thesis using q d' nn by simp
  qed
  then show ?case by simp
qed


lemma scanForward_step:
  "scanForward t i d =
     (if i < length t then
        (if t ! i = CHR '')'' \<and> d = 1 then Some i
         else scanForward t (i + 1) (d + parenDelta (t ! i)))
      else None)"
  by (subst scanForward.simps) (simp add: parenDelta_def)

lemma slice_Cons: "i < r \<Longrightarrow> i < length t \<Longrightarrow> slice t i r = t ! i # slice t (i + 1) r"
proof -
  assume a: "i < r" "i < length t"
  then obtain k where k: "r - i = Suc k" by (cases "r - i") auto
  then have "r - (i + 1) = k" by simp
  then show ?thesis
    using a k by (simp add: slice_def Cons_nth_drop_Suc [symmetric])
qed

lemma scanForward_Some:
  "scanForward t i d = Some c \<Longrightarrow> 1 \<le> d \<Longrightarrow>
     i \<le> c \<and> c < length t \<and> t ! c = CHR '')''
     \<and> parenBalance (slice t i c) = 1 - d
     \<and> (\<forall>r. i \<le> r \<and> r \<le> c \<longrightarrow> parenBalance (slice t i r) \<ge> 1 - d)"
proof (induction "length t - i" arbitrary: i d)
  case 0
  then show ?case by (subst (asm) scanForward_step) simp
next
  case (Suc n)
  then have i: "i < length t" by simp
  show ?case
  proof (cases "t ! i = CHR '')'' \<and> d = 1")
    case True
    with Suc.prems i have "c = i" by (subst (asm) scanForward_step) simp
    with True i show ?thesis by (auto simp: slice_empty parenBalance_Nil)
  next
    case False
    with Suc.prems i have rec: "scanForward t (i + 1) (d + parenDelta (t ! i)) = Some c"
      by (subst (asm) scanForward_step) simp
    have d1: "1 \<le> d + parenDelta (t ! i)"
      using False Suc.prems(2) by (auto simp: parenDelta_def)
    have n: "n = length t - (i + 1)" using Suc.hyps(2) by simp
    from Suc.hyps(1) [OF n rec d1]
    have ih: "i + 1 \<le> c" "c < length t" "t ! c = CHR '')''"
      "parenBalance (slice t (i + 1) c) = 1 - (d + parenDelta (t ! i))"
      "\<forall>r. i + 1 \<le> r \<and> r \<le> c \<longrightarrow> parenBalance (slice t (i + 1) r) \<ge> 1 - (d + parenDelta (t ! i))"
      by auto
    have b1: "parenBalance (slice t i c) = 1 - d"
      using slice_Cons [of i c t] ih i by (simp add: parenBalance_Cons)
    have b2: "parenBalance (slice t i r) \<ge> 1 - d" if "i \<le> r" "r \<le> c" for r
    proof (cases "r = i")
      case True
      then show ?thesis using Suc.prems(2) by (simp add: slice_empty parenBalance_Nil)
    next
      case False
      with that have "i + 1 \<le> r" by simp
      with ih that have "parenBalance (slice t (i + 1) r) \<ge> 1 - (d + parenDelta (t ! i))" by simp
      then show ?thesis
        using slice_Cons [of i r t] i \<open>i + 1 \<le> r\<close> by (simp add: parenBalance_Cons)
    qed
    show ?thesis using ih b1 b2 by auto
  qed
qed

lemma scanForward_None:
  "scanForward t i d = None \<Longrightarrow> 1 \<le> d \<Longrightarrow>
     \<not> (\<exists>c. i \<le> c \<and> c < length t \<and> t ! c = CHR '')''
           \<and> parenBalance (slice t i c) = 1 - d
           \<and> (\<forall>r. i \<le> r \<and> r \<le> c \<longrightarrow> parenBalance (slice t i r) \<ge> 1 - d))"
proof (induction "length t - i" arbitrary: i d)
  case 0
  then show ?case by simp
next
  case (Suc n)
  then have i: "i < length t" by simp
  have notstop: "\<not> (t ! i = CHR '')'' \<and> d = 1)"
    using Suc.prems(1) i by (subst (asm) scanForward_step) auto
  with Suc.prems i have rec: "scanForward t (i + 1) (d + parenDelta (t ! i)) = None"
    by (subst (asm) scanForward_step) simp
  have d1: "1 \<le> d + parenDelta (t ! i)"
    using notstop Suc.prems(2) by (auto simp: parenDelta_def)
  have n: "n = length t - (i + 1)" using Suc.hyps(2) by simp
  note ih = Suc.hyps(1) [OF n rec d1]
  show ?case
  proof
    assume "\<exists>c. i \<le> c \<and> c < length t \<and> t ! c = CHR '')''
           \<and> parenBalance (slice t i c) = 1 - d
           \<and> (\<forall>r. i \<le> r \<and> r \<le> c \<longrightarrow> parenBalance (slice t i r) \<ge> 1 - d)"
    then obtain c where c: "i \<le> c" "c < length t" "t ! c = CHR '')''"
      "parenBalance (slice t i c) = 1 - d"
      "\<forall>r. i \<le> r \<and> r \<le> c \<longrightarrow> parenBalance (slice t i r) \<ge> 1 - d"
      by blast
    have "c \<noteq> i"
    proof
      assume "c = i"
      with c have "t ! i = CHR '')''" "d = 1" by (simp_all add: slice_empty parenBalance_Nil)
      with notstop show False by simp
    qed
    with c have ic: "i + 1 \<le> c" by simp
    have b1: "parenBalance (slice t (i + 1) c) = 1 - (d + parenDelta (t ! i))"
      using slice_Cons [of i c t] c ic i by (simp add: parenBalance_Cons)
    have b2: "parenBalance (slice t (i + 1) r) \<ge> 1 - (d + parenDelta (t ! i))"
      if "i + 1 \<le> r" "r \<le> c" for r
    proof -
      from that c have "parenBalance (slice t i r) \<ge> 1 - d" by simp
      then show ?thesis using slice_Cons [of i r t] i that by (simp add: parenBalance_Cons)
    qed
    from ih ic c b1 b2 show False by blast
  qed
qed


lemma slice_split: "a \<le> r \<Longrightarrow> r \<le> b \<Longrightarrow> slice t a b = slice t a r @ slice t r b"
proof -
  assume ar: "a \<le> r" "r \<le> b"
  then have "b - a = (r - a) + (b - r)" by simp
  then have "take (b - a) (drop a t) = take (r - a) (drop a t) @ take (b - r) (drop (r - a) (drop a t))"
    by (simp only: take_add)
  with ar show ?thesis by (simp add: slice_def)
qed

lemma slice_take: "a \<le> r \<Longrightarrow> r \<le> b \<Longrightarrow> slice t a r = take (r - a) (slice t a b)"
  by (simp add: slice_def min_def)

lemma length_slice_le: "length (slice t a b) \<le> b - a"
  by (simp add: slice_def)

lemma take_slice: "k \<le> length (slice t a b) \<Longrightarrow> take k (slice t a b) = slice t a (a + k)"
proof -
  assume "k \<le> length (slice t a b)"
  then have "k \<le> b - a" using length_slice_le [of t a b] by simp
  then show ?thesis by (simp add: slice_def min_absorb1)
qed

lemma balanced_sliceI:
  assumes "parenBalance (slice t a b) = 0"
    and "\<And>r. a \<le> r \<Longrightarrow> r \<le> b \<Longrightarrow> parenBalance (slice t a r) \<ge> 0"
  shows "balanced (slice t a b)"
proof -
  have "parenBalance (take k (slice t a b)) \<ge> 0" if "k \<le> length (slice t a b)" for k
  proof -
    have "a + k \<le> b \<or> b < a" using that length_slice_le [of t a b] by linarith
    then show ?thesis
    proof
      assume "a + k \<le> b"
      then show ?thesis using assms(2) [of "a + k"] that by (simp add: take_slice)
    next
      assume "b < a"
      then show ?thesis by (simp add: slice_empty parenBalance_Nil)
    qed
  qed
  with assms(1) show ?thesis by (simp add: balanced_iff)
qed

lemma balanced_sliceD:
  assumes "balanced (slice t a b)" and "a \<le> r" and "r \<le> b"
  shows "parenBalance (slice t a b) = 0" and "parenBalance (slice t a r) \<ge> 0"
proof -
  let ?s = "slice t a b"
  show "parenBalance ?s = 0" using assms(1) by (simp add: balanced_iff)
  have all: "\<And>k. k \<le> length ?s \<Longrightarrow> parenBalance (take k ?s) \<ge> 0"
    using assms(1) by (simp add: balanced_iff)
  have "take (r - a) ?s = take (min (r - a) (length ?s)) ?s" by (simp add: min_def)
  moreover have "parenBalance (take (min (r - a) (length ?s)) ?s) \<ge> 0"
    by (rule all) simp
  ultimately show "parenBalance (slice t a r) \<ge> 0"
    using slice_take [OF assms(2,3), of t] by simp
qed

lemma unmatchedOpen_balance:
  assumes "unmatchedOpen t start p"
  shows "parenBalance (slice t p (start + 1)) = 1"
proof -
  from assms have p: "p \<le> start" "p < length t" "t ! p = CHR ''(''"
    and b: "balanced (slice t (p + 1) (start + 1))"
    by (auto simp: unmatchedOpen_def jsIndex_def split: if_splits)
  have "parenBalance (slice t (p + 1) (start + 1)) = 0"
    using b by (simp add: balanced_iff)
  then show ?thesis
    using slice_Cons [of p "start + 1" t] p by (simp add: parenBalance_Cons parenDelta_def)
qed

lemma scanBackward_unmatchedOpen:
  assumes "scanBackward t start 0 = Some p"
  shows "unmatchedOpen t start p"
proof -
  from scanBackward_Some [OF assms]
  have p: "p \<le> start" "jsIndex t p = Some CHR ''(''"
    and tot: "parenBalance (slice t (p + 1) (start + 1)) = 0"
    and suf: "\<And>q. p < q \<Longrightarrow> q \<le> start \<Longrightarrow> parenBalance (slice t q (start + 1)) \<le> 0"
    by auto
  have "balanced (slice t (p + 1) (start + 1))"
  proof (rule balanced_sliceI [OF tot])
    fix r assume r: "p + 1 \<le> r" "r \<le> start + 1"
    have split: "parenBalance (slice t (p + 1) (start + 1))
        = parenBalance (slice t (p + 1) r) + parenBalance (slice t r (start + 1))"
      using slice_split [OF r, of t] by (simp add: parenBalance_append)
    have "parenBalance (slice t r (start + 1)) \<le> 0"
    proof (cases "r \<le> start")
      case True
      with r show ?thesis using suf [of r] by simp
    next
      case False
      then show ?thesis by (simp add: slice_empty parenBalance_Nil)
    qed
    with split tot show "0 \<le> parenBalance (slice t (p + 1) r)" by simp
  qed
  with p show ?thesis by (simp add: unmatchedOpen_def)
qed

lemma unmatchedOpen_unique:
  assumes "unmatchedOpen t start p" and "unmatchedOpen t start q"
  shows "p = q"
proof -
  have less: "False" if a: "unmatchedOpen t start p'" and b: "unmatchedOpen t start q'"
    and lt: "p' < q'" for p' q'
  proof -
    from a have bal: "balanced (slice t (p' + 1) (start + 1))" by (simp add: unmatchedOpen_def)
    from b have q: "q' \<le> start" by (simp add: unmatchedOpen_def)
    have r: "p' + 1 \<le> q'" "q' \<le> start + 1" using lt q by simp_all
    have "parenBalance (slice t (p' + 1) (start + 1))
        = parenBalance (slice t (p' + 1) q') + parenBalance (slice t q' (start + 1))"
      using slice_split [OF r, of t] by (simp add: parenBalance_append)
    moreover have "parenBalance (slice t (p' + 1) (start + 1)) = 0"
      and "parenBalance (slice t (p' + 1) q') \<ge> 0"
      using balanced_sliceD [OF bal r] by simp_all
    moreover have "parenBalance (slice t q' (start + 1)) = 1"
      using b by (rule unmatchedOpen_balance)
    ultimately show False by simp
  qed
  show ?thesis
    using less [OF assms] less [OF assms(2,1)] by (cases p q rule: linorder_cases) auto
qed

lemma scanBackward_iff: "scanBackward t start 0 = Some p \<longleftrightarrow> unmatchedOpen t start p"
proof
  assume "scanBackward t start 0 = Some p"
  then show "unmatchedOpen t start p" by (rule scanBackward_unmatchedOpen)
next
  assume u: "unmatchedOpen t start p"
  show "scanBackward t start 0 = Some p"
  proof (cases "scanBackward t start 0")
    case None
    then have "parenBalance (slice t p (start + 1)) \<le> 0"
      using scanBackward_None [of t start 0] u by (simp add: unmatchedOpen_def)
    with unmatchedOpen_balance [OF u] show ?thesis by simp
  next
    case (Some q)
    then have "unmatchedOpen t start q" by (rule scanBackward_unmatchedOpen)
    with u have "p = q" by (rule unmatchedOpen_unique)
    with Some show ?thesis by simp
  qed
qed

lemma scanForward_matchingClose:
  assumes "scanForward t (p + 1) 1 = Some c"
  shows "matchingClose t p c"
proof -
  from scanForward_Some [OF assms]
  have c: "p + 1 \<le> c" "c < length t" "t ! c = CHR '')''"
    and tot: "parenBalance (slice t (p + 1) c) = 0"
    and pre: "\<And>r. p + 1 \<le> r \<Longrightarrow> r \<le> c \<Longrightarrow> parenBalance (slice t (p + 1) r) \<ge> 0"
    by auto
  have "balanced (slice t (p + 1) c)"
    using tot pre by (rule balanced_sliceI)
  with c show ?thesis by (simp add: matchingClose_def jsIndex_def)
qed

lemma scanForward_iff: "scanForward t (p + 1) 1 = Some c \<longleftrightarrow> matchingClose t p c"
proof
  assume "scanForward t (p + 1) 1 = Some c"
  then show "matchingClose t p c" by (rule scanForward_matchingClose)
next
  assume m: "matchingClose t p c"
  then have c: "p + 1 \<le> c" "c < length t" "t ! c = CHR '')''"
    and bal: "balanced (slice t (p + 1) c)"
    by (auto simp: matchingClose_def jsIndex_def split: if_splits)
  have tot: "parenBalance (slice t (p + 1) c) = 0" using bal by (simp add: balanced_iff)
  have pre: "parenBalance (slice t (p + 1) r) \<ge> 0" if "p + 1 \<le> r" "r \<le> c" for r
    using balanced_sliceD(2) [OF bal that] .
  show "scanForward t (p + 1) 1 = Some c"
  proof (cases "scanForward t (p + 1) 1")
    case None
    from scanForward_None [OF None] c tot pre show ?thesis by auto
  next
    case (Some c')
    from scanForward_Some [OF Some]
    have c': "p + 1 \<le> c'" "c' < length t" "t ! c' = CHR '')''"
      and tot': "parenBalance (slice t (p + 1) c') = 0"
      and pre': "\<And>r. p + 1 \<le> r \<Longrightarrow> r \<le> c' \<Longrightarrow> parenBalance (slice t (p + 1) r) \<ge> 0"
      by auto
    have after: "parenBalance (slice t (p + 1) (Suc x)) = - 1"
      if "p + 1 \<le> x" "x < length t" "t ! x = CHR '')''" "parenBalance (slice t (p + 1) x) = 0" for x
      using slice_snoc [of "p + 1" x t] that by (simp add: jsIndex_def parenDelta_def)
    have "c = c'"
    proof (cases c c' rule: linorder_cases)
      case less
      then have "parenBalance (slice t (p + 1) (Suc c)) \<ge> 0" using pre' [of "Suc c"] c by simp
      with after [OF c tot] show ?thesis by simp
    next
      case equal
      then show ?thesis .
    next
      case greater
      then have "parenBalance (slice t (p + 1) (Suc c')) \<ge> 0" using pre [of "Suc c'"] c' by simp
      with after [OF c' tot'] show ?thesis by simp
    qed
    with Some show ?thesis by simp
  qed
qed

lemma scanForward_iff_Suc: "scanForward t (Suc p) 1 = Some c \<longleftrightarrow> matchingClose t p c"
  using scanForward_iff [of t p c] by simp

lemma substring_slice: "a \<le> b \<Longrightarrow> b \<le> length t \<Longrightarrow> substring t a b = slice t a b"
  by (simp add: substring_def slice_def Let_def min_def max_def)

lemma matchingClose_bounds: "matchingClose t p c \<Longrightarrow> p + 1 \<le> c \<and> c < length t \<and> t ! c = CHR '')''"
  by (auto simp: matchingClose_def jsIndex_def split: if_splits)

lemma unmatchedOpen_bounds: "unmatchedOpen t start p \<Longrightarrow> p \<le> start \<and> p < length t \<and> t ! p = CHR ''(''"
  by (auto simp: unmatchedOpen_def jsIndex_def split: if_splits)

lemma findMethodCallContext_SomeD:
  assumes "findMethodCallContext t offset = Some ctx"
  shows "\<exists>p c nm isCtor.
        unmatchedOpen t (offset - 1) p \<and> matchingClose t p c
        \<and> extractMethodName t p = Some (nm, isCtor) \<and> ctx = callSite t p c nm isCtor"
proof -
  from assms obtain p c nm isCtor where
    bk: "scanBackward t (offset - 1) 0 = Some p"
    and fw: "scanForward t (Suc p) 1 = Some c"
    and nm: "extractMethodName t p = Some (nm, isCtor)"
    and ctx: "ctx = \<lparr> methodName = nm, isConstructor = isCtor,
                   openParenOffset = p, closeParenOffset = c,
                   argumentsStart = p + 1, argumentsLength = c - p - 1,
                   existingArguments = trim (substring t (p + 1) c) \<rparr>"
    by (auto simp: findMethodCallContext_def Let_def split: option.splits if_splits)
  from bk have u: "unmatchedOpen t (offset - 1) p" by (simp only: scanBackward_iff)
  from fw have m: "matchingClose t p c" by (simp only: scanForward_iff_Suc)
  have "substring t (p + 1) c = slice t (p + 1) c"
    using matchingClose_bounds [OF m] by (intro substring_slice) simp_all
  with ctx have "ctx = callSite t p c nm isCtor" by (simp add: callSite_def)
  with u m nm show ?thesis by blast
qed

lemma findMethodCallContext_SomeI:
  assumes u: "unmatchedOpen t (offset - 1) p" and m: "matchingClose t p c"
    and nm: "extractMethodName t p = Some (nm, isCtor)"
  shows "findMethodCallContext t offset = Some (callSite t p c nm isCtor)"
proof -
  from u have bk: "scanBackward t (offset - 1) 0 = Some p" by (simp only: scanBackward_iff)
  from m have fw: "scanForward t (Suc p) 1 = Some c" by (simp only: scanForward_iff_Suc)
  have sub: "substring t (Suc p) c = slice t (Suc p) c"
    using matchingClose_bounds [OF m] by (intro substring_slice) simp_all
  have "(if offset > 0 then offset - 1 else 0) = offset - 1" by simp
  then show ?thesis
    using bk fw nm sub by (simp add: findMethodCallContext_def Let_def callSite_def)
qed

lemma findMethodCallContext_NoneI:
  assumes "\<not> (\<exists>p. unmatchedOpen t (offset - 1) p)
           \<or> (\<exists>p. unmatchedOpen t (offset - 1) p \<and> \<not> (\<exists>c. matchingClose t p c))
           \<or> (\<exists>p. unmatchedOpen t (offset - 1) p \<and> extractMethodName t p = None)"
  shows "findMethodCallContext t offset = None"
proof (cases "findMethodCallContext t offset")
  case None
  then show ?thesis .
next
  case (Some ctx)
  from findMethodCallContext_SomeD [OF Some] obtain p c nm isCtor where
    u: "unmatchedOpen t (offset - 1) p" and m: "matchingClose t p c"
    and nm: "extractMethodName t p = Some (nm, isCtor)"
    by blast
  from assms u m nm unmatchedOpen_unique [OF u] show ?thesis
    by (metis option.distinct(1))
qed

lemma no_open_paren: "CHR ''('' \<notin> set t \<Longrightarrow> \<not> unmatchedOpen t start p"
  by (metis unmatchedOpen_bounds nth_mem)

lemma no_close_paren: "CHR '')'' \<notin> set t \<Longrightarrow> \<not> matchingClose t p c"
  by (metis matchingClose_bounds nth_mem)

lemma findMethodCallContext_example:
  "findMethodCallContext ''foo(bar(1,2), baz())'' 18
     = Some \<lparr> methodName = ''baz'', isConstructor = False,
              openParenOffset = 17, closeParenOffset = 18,
              argumentsStart = 18, argumentsLength = 0, existingArguments = [] \<rparr>"
  by code_simp

text \<open>
  Claim C2. The backward scan from \<open>max (offset - 1) 0\<close> with its depth counter
  stops at the innermost open parenthesis that nothing up to the start of the scan
  closes, and the forward scan from there stops at the closing parenthesis that
  matches it; a context is returned exactly for such a pair with a callee name before
  it. When no such open parenthesis exists, or it has no matching closing
  parenthesis, the result is \<open>None\<close> (no call site, not an error). In
  \<open>foo(bar(1,2), baz())\<close> with the cursor between the parentheses of \<open>baz\<close>
  (offset 18) the call site is that of \<open>baz\<close>, not of \<open>foo\<close>.
\<close>

theorem findMethodCallContext_balanced_scan:
  "(findMethodCallContext text offset = Some ctx \<longrightarrow>
      unmatchedOpen text (offset - 1) (openParenOffset ctx)
      \<and> matchingClose text (openParenOffset ctx) (closeParenOffset ctx)
      \<and> (\<exists>isCtor. extractMethodName text (openParenOffset ctx) = Some (methodName ctx, isCtor)))
   \<and> (unmatchedOpen text (offset - 1) p \<and> matchingClose text p c
        \<and> extractMethodName text p = Some (nm, isCtor) \<longrightarrow>
      findMethodCallContext text offset = Some (callSite text p c nm isCtor))
   \<and> (\<not> (\<exists>p. unmatchedOpen text (offset - 1) p) \<longrightarrow> findMethodCallContext text offset = None)
   \<and> ((\<exists>p. unmatchedOpen text (offset - 1) p \<and> \<not> (\<exists>c. matchingClose text p c)) \<longrightarrow>
      findMethodCallContext text offset = None)
   \<and> findMethodCallContext ''foo(bar(1,2), baz())'' 18
     = Some \<lparr> methodName = ''baz'', isConstructor = False,
              openParenOffset = 17, closeParenOffset = 18,
              argumentsStart = 18, argumentsLength = 0, existingArguments = [] \<rparr>"
proof (intro conjI impI)
  assume "findMethodCallContext text offset = Some ctx"
  from findMethodCallContext_SomeD [OF this] obtain p' c' nm' isCtor' where
    *: "unmatchedOpen text (offset - 1) p'" "matchingClose text p' c'"
    "extractMethodName text p' = Some (nm', isCtor')" "ctx = callSite text p' c' nm' isCtor'"
    by blast
  then have f: "openParenOffset ctx = p'" "closeParenOffset ctx = c'" "methodName ctx = nm'"
    by (simp_all add: callSite_def)
  show "unmatchedOpen text (offset - 1) (openParenOffset ctx)" using * f by simp
  show "matchingClose text (openParenOffset ctx) (closeParenOffset ctx)" using * f by simp
  show "\<exists>isCtor. extractMethodName text (openParenOffset ctx) = Some (methodName ctx, isCtor)"
    using * f by simp
next
  assume "unmatchedOpen text (offset - 1) p \<and> matchingClose text p c
        \<and> extractMethodName text p = Some (nm, isCtor)"
  then show "findMethodCallContext text offset = Some (callSite text p c nm isCtor)"
    using findMethodCallContext_SomeI by blast
next
  assume "\<not> (\<exists>p. unmatchedOpen text (offset - 1) p)"
  then show "findMethodCallContext text offset = None"
    using findMethodCallContext_NoneI by blast
next
  assume "\<exists>p. unmatchedOpen text (offset - 1) p \<and> \<not> (\<exists>c. matchingClose text p c)"
  then show "findMethodCallContext text offset = None"
    using findMethodCallContext_NoneI by blast
next
  show "findMethodCallContext ''foo(bar(1,2), baz())'' 18
     = Some \<lparr> methodName = ''baz'', isConstructor = False,
              openParenOffset = 17, closeParenOffset = 18,
              argumentsStart = 18, argumentsLength = 0, existingArguments = [] \<rparr>"
    by (rule findMethodCallContext_example)
qed

theorem findMethodCallContext_balanced_scan_witness:
  "unmatchedOpen ''foo(bar(1,2), baz())'' 17 17
   \<and> matchingClose ''foo(bar(1,2), baz())'' 17 18
   \<and> findMethodCallContext ''f(g(x), y)'' 9 = Some (callSite ''f(g(x), y)'' 1 9 ''f'' False)
   \<and> findMethodCallContext ''a) b'' 4 = None
   \<and> findMethodCallContext ''f(a'' 3 = None"
proof -
  let ?T = "''foo(bar(1,2), baz())''"
  let ?R = "\<lparr> methodName = ''baz'', isConstructor = False,
              openParenOffset = 17, closeParenOffset = 18,
              argumentsStart = 18, argumentsLength = 0, existingArguments = [] \<rparr>"
  have e: "findMethodCallContext ?T 18 = Some ?R"
    by (rule findMethodCallContext_example)
  have one: "unmatchedOpen ?T 17 17 \<and> matchingClose ?T 17 18"
    using findMethodCallContext_balanced_scan [of ?T 18 ?R] e by simp
  have h2: "unmatchedOpen ''f(g(x), y)'' (9 - 1) 1 \<and> matchingClose ''f(g(x), y)'' 1 9
        \<and> extractMethodName ''f(g(x), y)'' 1 = Some (''f'', False)"
    by code_simp
  have two: "findMethodCallContext ''f(g(x), y)'' 9 = Some (callSite ''f(g(x), y)'' 1 9 ''f'' False)"
    using findMethodCallContext_balanced_scan [of "''f(g(x), y)''" 9 _ 1 9 "''f''" False] h2
    by blast
  have h3: "\<not> (\<exists>p. unmatchedOpen ''a) b'' (4 - 1) p)"
    by (simp add: no_open_paren)
  have three: "findMethodCallContext ''a) b'' 4 = None"
    using findMethodCallContext_balanced_scan [of "''a) b''" 4] h3 by blast
  have "unmatchedOpen ''f(a'' (3 - 1) 1"
    by code_simp
  moreover have "\<not> (\<exists>c. matchingClose ''f(a'' 1 c)"
    by (simp add: no_close_paren)
  ultimately have h4: "\<exists>p. unmatchedOpen ''f(a'' (3 - 1) p \<and> \<not> (\<exists>c. matchingClose ''f(a'' p c)"
    by blast
  have four: "findMethodCallContext ''f(a'' 3 = None"
    using findMethodCallContext_balanced_scan [of "''f(a''" 3] h4 by blast
  show ?thesis
    using one two three four by simp
qed

lemma fillArguments_SomeD:
  "fillArguments options hasJavaSupport reply t offset = Inr (Some r) \<Longrightarrow>
     \<exists>ctx. findMethodCallContext t offset = Some ctx
       \<and> replaceStart r = argumentsStart ctx \<and> replaceLength r = argumentsLength ctx"
  by (auto simp: fillArguments_def Let_def split: option.splits sum.splits if_splits)

lemma callSite_fields:
  assumes "findMethodCallContext t offset = Some ctx"
  shows "openParenOffset ctx < closeParenOffset ctx" "closeParenOffset ctx < length t"
    "t ! openParenOffset ctx = CHR ''(''" "t ! closeParenOffset ctx = CHR '')''"
    "argumentsStart ctx = openParenOffset ctx + 1"
    "argumentsLength ctx = closeParenOffset ctx - openParenOffset ctx - 1"
    "existingArguments ctx = trim (slice t (openParenOffset ctx + 1) (closeParenOffset ctx))"
proof -
  from findMethodCallContext_SomeD [OF assms] obtain p c nm isCtor where
    u: "unmatchedOpen t (offset - 1) p" and m: "matchingClose t p c"
    and ctx: "ctx = callSite t p c nm isCtor"
    by blast
  note ub = unmatchedOpen_bounds [OF u] and mb = matchingClose_bounds [OF m]
  show "openParenOffset ctx < closeParenOffset ctx" using mb ctx by (simp add: callSite_def)
  show "closeParenOffset ctx < length t" using mb ctx by (simp add: callSite_def)
  show "t ! openParenOffset ctx = CHR ''(''" using ub ctx by (simp add: callSite_def)
  show "t ! closeParenOffset ctx = CHR '')''" using mb ctx by (simp add: callSite_def)
  show "argumentsStart ctx = openParenOffset ctx + 1" using ctx by (simp add: callSite_def)
  show "argumentsLength ctx = closeParenOffset ctx - openParenOffset ctx - 1"
    using ctx by (simp add: callSite_def)
  show "existingArguments ctx = trim (slice t (openParenOffset ctx + 1) (closeParenOffset ctx))"
    using ctx by (simp add: callSite_def)
qed

text \<open>
  Claim C8, as amended. Every context the locator returns has
  \<open>openParenOffset < closeParenOffset\<close>, both inside the text and holding the two
  parentheses, \<open>argumentsStart = openParenOffset + 1\<close>,
  \<open>argumentsLength = closeParenOffset - openParenOffset - 1\<close>, and
  \<open>existingArguments\<close> equal to the text between the parentheses with the white
  space at its two ends removed (the stored text is the trimmed one). A fill result
  replaces exactly the span between the parentheses, which lies inside the text and has
  length 0 when nothing stands between the parentheses.
\<close>

theorem callSiteContext_invariants:
  "(findMethodCallContext text offset = Some ctx \<longrightarrow>
      openParenOffset ctx < closeParenOffset ctx
      \<and> closeParenOffset ctx < length text
      \<and> text ! openParenOffset ctx = CHR ''(''
      \<and> text ! closeParenOffset ctx = CHR '')''
      \<and> argumentsStart ctx = openParenOffset ctx + 1
      \<and> argumentsLength ctx = closeParenOffset ctx - openParenOffset ctx - 1
      \<and> existingArguments ctx
          = trim (slice text (openParenOffset ctx + 1) (closeParenOffset ctx)))
   \<and> (fillArguments options hasJavaSupport reply text offset = Inr (Some r) \<longrightarrow>
      (\<exists>ctx. findMethodCallContext text offset = Some ctx
         \<and> replaceStart r = openParenOffset ctx + 1
         \<and> replaceStart r + replaceLength r = closeParenOffset ctx
         \<and> replaceStart r + replaceLength r \<le> length text
         \<and> (slice text (openParenOffset ctx + 1) (closeParenOffset ctx) = []
              \<longrightarrow> replaceLength r = 0)))"
proof (intro conjI impI)
  assume a: "fillArguments options hasJavaSupport reply text offset = Inr (Some r)"
  from fillArguments_SomeD [OF a] obtain ctx' where
    c: "findMethodCallContext text offset = Some ctx'"
    and r: "replaceStart r = argumentsStart ctx'" "replaceLength r = argumentsLength ctx'"
    by blast
  note f = callSite_fields [OF c]
  have len: "length (slice text (openParenOffset ctx' + 1) (closeParenOffset ctx'))
               = closeParenOffset ctx' - openParenOffset ctx' - 1"
    using f(1,2) by (simp add: slice_def)
  show "\<exists>ctx. findMethodCallContext text offset = Some ctx
         \<and> replaceStart r = openParenOffset ctx + 1
         \<and> replaceStart r + replaceLength r = closeParenOffset ctx
         \<and> replaceStart r + replaceLength r \<le> length text
         \<and> (slice text (openParenOffset ctx + 1) (closeParenOffset ctx) = []
              \<longrightarrow> replaceLength r = 0)"
  proof (intro exI conjI impI)
    show "findMethodCallContext text offset = Some ctx'" by (rule c)
    show "replaceStart r = openParenOffset ctx' + 1" using r f by simp
    show "replaceStart r + replaceLength r = closeParenOffset ctx'" using r f by simp
    show "replaceStart r + replaceLength r \<le> length text" using r f by simp
    assume "slice text (openParenOffset ctx' + 1) (closeParenOffset ctx') = []"
    then show "replaceLength r = 0" using len r f by simp
  qed
qed (simp_all add: callSite_fields)

theorem callSiteContext_invariants_witness:
  "fillArguments \<lparr> enableCompletion = True, useParameterNames = True, fallbackToTypeName = True \<rparr>
     True
     (Reply \<lparr> signatures = [\<lparr> sigLabel = ''someMethod(int a, String b)'',
                                parameters = [LabelString ''int a'', LabelString ''String b''] \<rparr>],
               activeSignature = 0 \<rparr>)
     ''void m(){ someMethod(); }'' 21
     = Inr (Some \<lparr> arguments = ''a, b'', replaceStart = 21, replaceLength = 0 \<rparr>)
   \<and> findMethodCallContext ''void m(){ someMethod(); }'' 21
     = Some \<lparr> methodName = ''someMethod'', isConstructor = False,
              openParenOffset = 20, closeParenOffset = 21,
              argumentsStart = 21, argumentsLength = 0, existingArguments = [] \<rparr>
   \<and> (21::nat) + 0 \<le> length ''void m(){ someMethod(); }''"
proof -
  let ?o = "\<lparr> enableCompletion = True, useParameterNames = True, fallbackToTypeName = True \<rparr>"
  let ?reply = "Reply \<lparr> signatures = [\<lparr> sigLabel = ''someMethod(int a, String b)'',
                                parameters = [LabelString ''int a'', LabelString ''String b''] \<rparr>],
               activeSignature = 0 \<rparr>"
  let ?T = "''void m(){ someMethod(); }''"
  let ?r = "\<lparr> arguments = ''a, b'', replaceStart = 21, replaceLength = 0 \<rparr>"
  let ?ctx = "\<lparr> methodName = ''someMethod'', isConstructor = False,
              openParenOffset = 20, closeParenOffset = 21,
              argumentsStart = 21, argumentsLength = 0, existingArguments = [] \<rparr>"
  have fill: "fillArguments ?o True ?reply ?T 21 = Inr (Some ?r)"
    by code_simp
  have find: "findMethodCallContext ?T 21 = Some ?ctx"
    by code_simp
  have "replaceStart ?r + replaceLength ?r \<le> length ?T"
    using callSiteContext_invariants [of ?T 21 ?ctx ?o True ?reply ?r] fill find by auto
  then show ?thesis
    using fill find by simp
qed

text \<open>
  The stored \<open>existingArguments\<close> is not the exact text between the parentheses:
  in \<open>f( a )\<close> it is \<open>a\<close>, while the text between the parentheses is
  \<open> a \<close> with its two spaces.
\<close>

theorem callSiteContext_exact_substring_counterexample:
  "findMethodCallContext ''f( a )'' 2
     = Some \<lparr> methodName = ''f'', isConstructor = False,
              openParenOffset = 1, closeParenOffset = 5,
              argumentsStart = 2, argumentsLength = 3, existingArguments = ''a'' \<rparr>
   \<and> slice ''f( a )'' 2 5 = '' a ''
   \<and> ''a'' \<noteq> '' a ''"
  by code_simp

subsection \<open>fillArguments and the heuristic path\<close>

lemma fillArguments_noAdapterData:
  assumes "findMethodCallContext t offset = Some ctx" and "noAdapterData hasJavaSupport reply"
  shows "fillArguments options hasJavaSupport reply t offset =
     (case parseParametersFromContext options t ctx of
        Inl e \<Rightarrow> Inl e
      | Inr None \<Rightarrow> Inr None
      | Inr (Some ps) \<Rightarrow> if ps = [] then Inr None else Inr (Some (fillResult options ctx ps)))"
  using assms
  by (auto simp: fillArguments_def noAdapterData_def fillResult_def Let_def
      split: option.splits sum.splits)

lemma fillArguments_adapterData:
  assumes "findMethodCallContext t offset = Some ctx"
    and "getParametersFromLanguageServer reply = Some ps"
  shows "fillArguments options True reply t offset =
     (if ps = [] then Inr None else Inr (Some (fillResult options ctx ps)))"
  using assms by (simp add: fillArguments_def fillResult_def Let_def)

lemma countArguments_pos: "\<not> isBlank s \<Longrightarrow> countArguments s > 0"
  by (simp add: countArguments_eq)

lemma isBlank_Nil_conv: "isBlank s \<Longrightarrow> s \<noteq> [] \<Longrightarrow> isWhiteSpace (hd s)"
  by (cases s) (simp_all add: isBlank_def)

lemma parseParametersFromContext_filled:
  assumes "\<not> isBlank (existingArguments ctx)"
  shows "parseParametersFromContext options t ctx = Inr None"
proof -
  have "existingArguments ctx \<noteq> []" using assms by (auto simp: isBlank_def)
  with countArguments_pos [OF assms] show ?thesis
    by (simp add: parseParametersFromContext_def)
qed

lemma parseParametersFromContext_empty:
  assumes "existingArguments ctx = []"
  shows "parseParametersFromContext options t ctx =
     (if fallbackToTypeName options then
        (case generatePlaceholderParameters (methodName ctx) (isConstructor ctx) of
           Inl e \<Rightarrow> Inl e
         | Inr ps \<Rightarrow> Inr (Some ps))
      else Inr None)"
  using assms by (simp add: parseParametersFromContext_def)

lemma existingArguments_not_blank:
  assumes "findMethodCallContext t offset = Some ctx" and "existingArguments ctx \<noteq> []"
  shows "\<not> isBlank (existingArguments ctx)"
proof
  assume b: "isBlank (existingArguments ctx)"
  let ?s = "slice t (openParenOffset ctx + 1) (closeParenOffset ctx)"
  have e: "existingArguments ctx = trim ?s" using callSite_fields(7) [OF assms(1)] .
  with assms(2) have "trim ?s \<noteq> []" by simp
  then have "\<not> isWhiteSpace (hd (trim ?s))" by (rule trim_ends)
  moreover have "isWhiteSpace (hd (trim ?s))"
    using b e assms(2) isBlank_Nil_conv [of "trim ?s"] by simp
  ultimately show False by simp
qed

lemma fillArguments_keeps_arguments:
  assumes "findMethodCallContext t offset = Some ctx" and "existingArguments ctx \<noteq> []"
    and "noAdapterData hasJavaSupport reply"
  shows "fillArguments options hasJavaSupport reply t offset = Inr None"
  using fillArguments_noAdapterData [OF assms(1,3)]
    parseParametersFromContext_filled [OF existingArguments_not_blank [OF assms(1,2)]]
  by simp

lemma setter_parameters:
  "generatePlaceholderParameters (''set'' @ c # rest) isCtor
     = Inr [\<lparr> name = toLowerCaseChar c # rest, type = ''Object'', index = 0 \<rparr>]"
  by (simp add: generatePlaceholderParameters_def charAt_def substringFrom_def toLowerCase_def)

lemma setter_parameters_Cons:
  "generatePlaceholderParameters (CHR ''s'' # CHR ''e'' # CHR ''t'' # c # rest) isCtor
     = Inr [\<lparr> name = toLowerCaseChar c # rest, type = ''Object'', index = 0 \<rparr>]"
  using setter_parameters [of c rest isCtor] by simp

lemma isSetterName_iff: "isSetterName nm \<longleftrightarrow> take 3 nm = ''set'' \<and> length nm > 3"
proof
  assume "isSetterName nm"
  then show "take 3 nm = ''set'' \<and> length nm > 3" by (auto simp: isSetterName_def)
next
  assume a: "take 3 nm = ''set'' \<and> length nm > 3"
  then have "drop 3 nm \<noteq> []" by simp
  then obtain c rest where "drop 3 nm = c # rest" by (cases "drop 3 nm") auto
  with a have "nm = ''set'' @ c # rest" by (metis append_take_drop_id)
  then show "isSetterName nm" unfolding isSetterName_def by blast
qed

lemma unknown_parameters:
  assumes "\<not> isSetterName nm" and "nm \<notin> fst ` set knownPatterns"
    and "nm \<notin> set objectPrototypeProperties"
  shows "generatePlaceholderParameters nm isCtor = Inr []"
proof -
  have "map_of knownPatterns nm = None" using assms(2) by (simp add: map_of_eq_None_iff)
  with assms(1,3) show ?thesis
    unfolding generatePlaceholderParameters_def getProperty_def isSetterName_iff by simp
qed

lemma equals_parameters:
  "generatePlaceholderParameters ''equals'' isCtor
     = Inr [\<lparr> name = ''obj'', type = ''Object'', index = 0 \<rparr>]"
  by (simp add: generatePlaceholderParameters_def getProperty_def knownPatterns_def)

lemma prototype_names_not_own:
  "list_all (\<lambda>nm. map_of knownPatterns nm = None \<and> \<not> (take 3 nm = ''set'' \<and> length nm > 3))
     objectPrototypeProperties"
  by code_simp

lemma inherited_parameters:
  assumes "nm \<in> set objectPrototypeProperties"
  shows "generatePlaceholderParameters nm isCtor = Inl TypeError"
proof -
  from assms prototype_names_not_own
  have "map_of knownPatterns nm = None" "\<not> (take 3 nm = ''set'' \<and> length nm > 3)"
    by (simp_all add: list_all_iff)
  with assms show ?thesis
    unfolding generatePlaceholderParameters_def getProperty_def by simp
qed

lemma fillArguments_heuristic:
  assumes "heuristicPath hasJavaSupport reply t offset ctx"
  shows "fillArguments options hasJavaSupport reply t offset =
     (if fallbackToTypeName options then
        (case generatePlaceholderParameters (methodName ctx) (isConstructor ctx) of
           Inl e \<Rightarrow> Inl e
         | Inr ps \<Rightarrow> if ps = [] then Inr None else Inr (Some (fillResult options ctx ps)))
      else Inr None)"
proof -
  from assms have f: "findMethodCallContext t offset = Some ctx"
    and e: "existingArguments ctx = []" and n: "noAdapterData hasJavaSupport reply"
    by (simp_all add: heuristicPath_def)
  show ?thesis
    unfolding fillArguments_noAdapterData [OF f n] parseParametersFromContext_empty [OF e]
    by (simp split: sum.splits)
qed

lemma fillResult_names:
  "useParameterNames options \<Longrightarrow> arguments (fillResult options ctx ps) = join '', '' (map name ps)"
  by (simp add: fillResult_def generateArgumentString_def)

text \<open>
  Claim C1 at the failing input: the call \<open>f(1, 2)\<close> already has arguments, the
  signature-help query returns two parameters, and the fill result replaces the four
  characters \<open>1, 2\<close> by \<open>a, b\<close>.
\<close>

theorem fillArguments_overwrites_with_adapter:
  "findMethodCallContext ''f(1, 2)'' 2
     = Some \<lparr> methodName = ''f'', isConstructor = False,
              openParenOffset = 1, closeParenOffset = 6,
              argumentsStart = 2, argumentsLength = 4, existingArguments = ''1, 2'' \<rparr>
   \<and> fillArguments
       \<lparr> enableCompletion = True, useParameterNames = True, fallbackToTypeName = True \<rparr>
       True
       (Reply \<lparr> signatures = [\<lparr> sigLabel = ''f(int a, int b)'',
                                  parameters = [LabelString ''int a'', LabelString ''int b''] \<rparr>],
                 activeSignature = 0 \<rparr>)
       ''f(1, 2)'' 2
     = Inr (Some \<lparr> arguments = ''a, b'', replaceStart = 2, replaceLength = 4 \<rparr>)"
  by code_simp

text \<open>
  The heuristic path (a call site with nothing but white space between its
  parentheses, and no parameters from the signature-help query): with
  \<open>fallbackToTypeName\<close> unset the result is \<open>null\<close>; with it set the result is
  decided by \<open>generatePlaceholderParameters\<close> on the callee name. The callee
  \<open>equals\<close> gets the one parameter \<open>obj\<close>, and the fill text is \<open>obj\<close> when
  \<open>useParameterNames\<close> is set. A callee that is no setter name and no key of the
  table gives \<open>null\<close> as long as its name is not that of a property of
  \<open>Object.prototype\<close>.
\<close>

lemma heuristicPath_resolution:
  "(heuristicPath hasJavaSupport reply text offset ctx \<and> \<not> fallbackToTypeName options \<longrightarrow>
      fillArguments options hasJavaSupport reply text offset = Inr None)
   \<and> (heuristicPath hasJavaSupport reply text offset ctx \<and> fallbackToTypeName options \<longrightarrow>
      fillArguments options hasJavaSupport reply text offset =
        (case generatePlaceholderParameters (methodName ctx) (isConstructor ctx) of
           Inl e \<Rightarrow> Inl e
         | Inr ps \<Rightarrow> if ps = [] then Inr None else Inr (Some (fillResult options ctx ps))))
   \<and> generatePlaceholderParameters ''equals'' isCtor
       = Inr [\<lparr> name = ''obj'', type = ''Object'', index = 0 \<rparr>]
   \<and> (heuristicPath hasJavaSupport reply text offset ctx \<and> fallbackToTypeName options
        \<and> useParameterNames options \<and> methodName ctx = ''equals'' \<longrightarrow>
      fillArguments options hasJavaSupport reply text offset
        = Inr (Some \<lparr> arguments = ''obj'', replaceStart = argumentsStart ctx,
                       replaceLength = argumentsLength ctx \<rparr>))
   \<and> (heuristicPath hasJavaSupport reply text offset ctx \<and> fallbackToTypeName options
        \<and> \<not> isSetterName (methodName ctx) \<and> methodName ctx \<notin> fst ` set knownPatterns
        \<and> methodName ctx \<notin> set objectPrototypeProperties \<longrightarrow>
      fillArguments options hasJavaSupport reply text offset = Inr None)"
proof -
  note h = fillArguments_heuristic [of hasJavaSupport reply "text" offset ctx options]
  have c1: "heuristicPath hasJavaSupport reply text offset ctx \<and> \<not> fallbackToTypeName options \<longrightarrow>
      fillArguments options hasJavaSupport reply text offset = Inr None"
    using h by simp
  have c2: "heuristicPath hasJavaSupport reply text offset ctx \<and> fallbackToTypeName options \<longrightarrow>
      fillArguments options hasJavaSupport reply text offset =
        (case generatePlaceholderParameters (methodName ctx) (isConstructor ctx) of
           Inl e \<Rightarrow> Inl e
         | Inr ps \<Rightarrow> if ps = [] then Inr None else Inr (Some (fillResult options ctx ps)))"
    using h by simp
  have c3: "generatePlaceholderParameters ''equals'' isCtor
       = Inr [\<lparr> name = ''obj'', type = ''Object'', index = 0 \<rparr>]"
    by (rule equals_parameters)
  have c4: "heuristicPath hasJavaSupport reply text offset ctx \<and> fallbackToTypeName options
        \<and> useParameterNames options \<and> methodName ctx = ''equals'' \<longrightarrow>
      fillArguments options hasJavaSupport reply text offset
        = Inr (Some \<lparr> arguments = ''obj'', replaceStart = argumentsStart ctx,
                       replaceLength = argumentsLength ctx \<rparr>)"
    using h by (simp add: equals_parameters fillResult_def generateArgumentString_def)
  have c5: "heuristicPath hasJavaSupport reply text offset ctx \<and> fallbackToTypeName options
        \<and> \<not> isSetterName (methodName ctx) \<and> methodName ctx \<notin> fst ` set knownPatterns
        \<and> methodName ctx \<notin> set objectPrototypeProperties \<longrightarrow>
      fillArguments options hasJavaSupport reply text offset = Inr None"
    using h by (simp add: unknown_parameters)
  show ?thesis
    using c1 c2 c3 c4 c5 by blast
qed

lemma heuristicPath_resolution_examples:
  "fillArguments \<lparr> enableCompletion = True, useParameterNames = True, fallbackToTypeName = False \<rparr>
       False Rejected ''x.equals()'' 9 = Inr None
   \<and> fillArguments \<lparr> enableCompletion = True, useParameterNames = True, fallbackToTypeName = True \<rparr>
       False Rejected ''x.equals()'' 9
     = Inr (Some \<lparr> arguments = ''obj'', replaceStart = 9, replaceLength = 0 \<rparr>)
   \<and> fillArguments \<lparr> enableCompletion = True, useParameterNames = True, fallbackToTypeName = True \<rparr>
       False Rejected ''x.mysteryMethod()'' 16 = Inr None"
proof -
  let ?off = "\<lparr> enableCompletion = True, useParameterNames = True, fallbackToTypeName = False \<rparr>"
  let ?on = "\<lparr> enableCompletion = True, useParameterNames = True, fallbackToTypeName = True \<rparr>"
  let ?eq = "\<lparr> methodName = ''equals'', isConstructor = False,
               openParenOffset = 8, closeParenOffset = 9,
               argumentsStart = 9, argumentsLength = 0, existingArguments = [] \<rparr>"
  let ?my = "\<lparr> methodName = ''mysteryMethod'', isConstructor = False,
               openParenOffset = 15, closeParenOffset = 16,
               argumentsStart = 16, argumentsLength = 0, existingArguments = [] \<rparr>"
  have h1: "heuristicPath False Rejected ''x.equals()'' 9 ?eq"
    by code_simp
  have h2: "heuristicPath False Rejected ''x.mysteryMethod()'' 16 ?my"
    by code_simp
  have h3: "\<not> isSetterName ''mysteryMethod''"
    by (simp add: isSetterName_iff)
  have h4: "''mysteryMethod'' \<notin> fst ` set knownPatterns"
    by (simp add: knownPatterns_def)
  have h5: "''mysteryMethod'' \<notin> set objectPrototypeProperties"
    by (simp add: objectPrototypeProperties_def)
  have fb: "\<not> fallbackToTypeName ?off" "fallbackToTypeName ?on" "useParameterNames ?on"
    by simp_all
  have nm: "methodName ?eq = ''equals''" "\<not> isSetterName (methodName ?my)"
    "methodName ?my \<notin> fst ` set knownPatterns"
    "methodName ?my \<notin> set objectPrototypeProperties"
    using h3 h4 h5 by simp_all
  have a: "fillArguments ?off False Rejected ''x.equals()'' 9 = Inr None"
    using heuristicPath_resolution [of False Rejected "''x.equals()''" 9 ?eq ?off] h1 fb(1)
    by blast
  have "fillArguments ?on False Rejected ''x.equals()'' 9
      = Inr (Some \<lparr> arguments = ''obj'', replaceStart = argumentsStart ?eq,
                     replaceLength = argumentsLength ?eq \<rparr>)"
    using heuristicPath_resolution [of False Rejected "''x.equals()''" 9 ?eq ?on] h1 fb(2,3) nm(1)
    by blast
  then have b: "fillArguments ?on False Rejected ''x.equals()'' 9
      = Inr (Some \<lparr> arguments = ''obj'', replaceStart = 9, replaceLength = 0 \<rparr>)"
    by simp
  have c: "fillArguments ?on False Rejected ''x.mysteryMethod()'' 16 = Inr None"
    using heuristicPath_resolution [of False Rejected "''x.mysteryMethod()''" 16 ?my ?on]
      h2 fb(2) nm(2,3,4) by blast
  show ?thesis
    using a b c by simp
qed

text \<open>
  With \<open>useParameterNames\<close> unset and \<open>fallbackToTypeName\<close> set the fill text for
  \<open>equals\<close> is derived from the type \<open>Object\<close> of the heuristic parameter: it is
  \<open>object\<close>, not \<open>obj\<close>.
\<close>

lemma fillArguments_equals_type_derived:
  "fillArguments \<lparr> enableCompletion = True, useParameterNames = False, fallbackToTypeName = True \<rparr>
       False Rejected ''x.equals()'' 9
     = Inr (Some \<lparr> arguments = ''object'', replaceStart = 9, replaceLength = 0 \<rparr>)
   \<and> ''object'' \<noteq> ''obj''"
  by code_simp

text \<open>
  Claim C5 at the failing input. The claim: on the heuristic path, with
  \<open>fallbackToTypeName\<close> set, a callee that matches neither the setter prefix nor any
  entry of the table yields no fill result. The call \<open>x.toString()\<close> with the
  cursor between its empty parentheses, and no Java extension, is on the heuristic
  path; \<open>toString\<close> is no setter name and no key of \<open>knownPatterns\<close>. But
  \<open>knownPatterns[methodName]\<close> finds the function inherited from
  \<open>Object.prototype\<close>, the call of its \<open>map\<close> fails, and \<open>fillArguments\<close>
  leaves with a \<open>TypeError\<close> where it should return \<open>null\<close>.
\<close>

theorem fillArguments_toString_TypeError:
  "findMethodCallContext ''x.toString()'' 11
     = Some \<lparr> methodName = ''toString'', isConstructor = False,
              openParenOffset = 10, closeParenOffset = 11,
              argumentsStart = 11, argumentsLength = 0, existingArguments = [] \<rparr>
   \<and> \<not> isSetterName ''toString'' \<and> ''toString'' \<notin> fst ` set knownPatterns
   \<and> generatePlaceholderParameters ''toString'' False = Inl TypeError
   \<and> fillArguments \<lparr> enableCompletion = True, useParameterNames = True, fallbackToTypeName = True \<rparr>
       False Rejected ''x.toString()'' 11 = Inl TypeError"
proof -
  have "findMethodCallContext ''x.toString()'' 11
     = Some \<lparr> methodName = ''toString'', isConstructor = False,
              openParenOffset = 10, closeParenOffset = 11,
              argumentsStart = 11, argumentsLength = 0, existingArguments = [] \<rparr>"
    by code_simp
  moreover have "\<not> isSetterName ''toString''" by (simp add: isSetterName_iff)
  moreover have "''toString'' \<notin> fst ` set knownPatterns" by (simp add: knownPatterns_def)
  moreover have "generatePlaceholderParameters ''toString'' False = Inl TypeError"
    by code_simp
  moreover have "fillArguments
       \<lparr> enableCompletion = True, useParameterNames = True, fallbackToTypeName = True \<rparr>
       False Rejected ''x.toString()'' 11 = Inl TypeError"
    by code_simp
  ultimately show ?thesis by simp
qed

lemma setTitle_parameters:
  "generatePlaceholderParameters ''setTitle'' isCtor
     = Inr [\<lparr> name = ''title'', type = ''Object'', index = 0 \<rparr>]"
proof -
  have "toLowerCaseChar CHR ''T'' = CHR ''t''"
    by code_simp
  then show ?thesis
    using setter_parameters [of "CHR ''T''" "''itle''" isCtor] by simp
qed

text \<open>
  Claim C6, as amended. For every callee name made of \<open>set\<close> and at least one more
  character, \<open>generatePlaceholderParameters\<close> returns exactly one parameter: its
  name is the rest of the callee name with the first character in lower case, its type
  is \<open>Object\<close>, its index 0. On the heuristic path with \<open>fallbackToTypeName\<close> set,
  this is the parameter list of the resolution, and with \<open>useParameterNames\<close> set as
  well the fill text is that name: \<open>setTitle\<close> gives the parameter \<open>title\<close> and
  the fill text \<open>title\<close>.
\<close>

theorem setter_heuristic:
  "generatePlaceholderParameters (''set'' @ c # rest) isCtor
     = Inr [\<lparr> name = toLowerCaseChar c # rest, type = ''Object'', index = 0 \<rparr>]
   \<and> (heuristicPath hasJavaSupport reply text offset ctx \<and> fallbackToTypeName options
        \<and> methodName ctx = ''set'' @ c # rest \<longrightarrow>
      parseParametersFromContext options text ctx
        = Inr (Some [\<lparr> name = toLowerCaseChar c # rest, type = ''Object'', index = 0 \<rparr>])
      \<and> fillArguments options hasJavaSupport reply text offset
        = Inr (Some (fillResult options ctx
                 [\<lparr> name = toLowerCaseChar c # rest, type = ''Object'', index = 0 \<rparr>]))
      \<and> (useParameterNames options \<longrightarrow>
           fillArguments options hasJavaSupport reply text offset
             = Inr (Some \<lparr> arguments = toLowerCaseChar c # rest,
                            replaceStart = argumentsStart ctx,
                            replaceLength = argumentsLength ctx \<rparr>)))
   \<and> generatePlaceholderParameters ''setTitle'' isCtor
       = Inr [\<lparr> name = ''title'', type = ''Object'', index = 0 \<rparr>]
   \<and> fillArguments \<lparr> enableCompletion = True, useParameterNames = True, fallbackToTypeName = True \<rparr>
       False reply ''x.setTitle()'' 11
     = Inr (Some \<lparr> arguments = ''title'', replaceStart = 11, replaceLength = 0 \<rparr>)"
proof -
  let ?p = "\<lparr> name = toLowerCaseChar c # rest, type = ''Object'', index = 0 \<rparr>"
  note h = fillArguments_heuristic [of hasJavaSupport reply "text" offset ctx options]
  have c1: "generatePlaceholderParameters (''set'' @ c # rest) isCtor = Inr [?p]"
    by (rule setter_parameters)
  have c2: "heuristicPath hasJavaSupport reply text offset ctx \<and> fallbackToTypeName options
        \<and> methodName ctx = ''set'' @ c # rest \<longrightarrow>
      parseParametersFromContext options text ctx = Inr (Some [?p])
      \<and> fillArguments options hasJavaSupport reply text offset
            = Inr (Some (fillResult options ctx [?p]))
      \<and> (useParameterNames options \<longrightarrow>
           fillArguments options hasJavaSupport reply text offset
             = Inr (Some \<lparr> arguments = toLowerCaseChar c # rest,
                            replaceStart = argumentsStart ctx,
                            replaceLength = argumentsLength ctx \<rparr>))"
  proof (intro impI)
    assume a: "heuristicPath hasJavaSupport reply text offset ctx \<and> fallbackToTypeName options
        \<and> methodName ctx = ''set'' @ c # rest"
    then have e: "existingArguments ctx = []" by (simp add: heuristicPath_def)
    have g: "generatePlaceholderParameters (methodName ctx) (isConstructor ctx) = Inr [?p]"
      using a setter_parameters [of c rest "isConstructor ctx"] by simp
    have p: "parseParametersFromContext options text ctx = Inr (Some [?p])"
      using a g by (simp add: parseParametersFromContext_empty [OF e])
    have f: "fillArguments options hasJavaSupport reply text offset
            = Inr (Some (fillResult options ctx [?p]))"
      using a g h by simp
    have n: "useParameterNames options \<longrightarrow>
           fillArguments options hasJavaSupport reply text offset
             = Inr (Some \<lparr> arguments = toLowerCaseChar c # rest,
                            replaceStart = argumentsStart ctx,
                            replaceLength = argumentsLength ctx \<rparr>)"
      using f by (simp add: fillResult_def generateArgumentString_def)
    from p f n show "parseParametersFromContext options text ctx = Inr (Some [?p])
      \<and> fillArguments options hasJavaSupport reply text offset
            = Inr (Some (fillResult options ctx [?p]))
      \<and> (useParameterNames options \<longrightarrow>
           fillArguments options hasJavaSupport reply text offset
             = Inr (Some \<lparr> arguments = toLowerCaseChar c # rest,
                            replaceStart = argumentsStart ctx,
                            replaceLength = argumentsLength ctx \<rparr>))"
      by blast
  qed
  have c3: "generatePlaceholderParameters ''setTitle'' isCtor
       = Inr [\<lparr> name = ''title'', type = ''Object'', index = 0 \<rparr>]"
    by (rule setTitle_parameters)
  let ?on = "\<lparr> enableCompletion = True, useParameterNames = True, fallbackToTypeName = True \<rparr>"
  let ?ctx = "\<lparr> methodName = ''setTitle'', isConstructor = False,
               openParenOffset = 10, closeParenOffset = 11,
               argumentsStart = 11, argumentsLength = 0, existingArguments = [] \<rparr>"
  have f: "findMethodCallContext ''x.setTitle()'' 11 = Some ?ctx"
    by code_simp
  then have hp: "heuristicPath False reply ''x.setTitle()'' 11 ?ctx"
    by (simp add: heuristicPath_def noAdapterData_def)
  have "fillArguments ?on False reply ''x.setTitle()'' 11
      = Inr (Some (fillResult ?on ?ctx [\<lparr> name = ''title'', type = ''Object'', index = 0 \<rparr>]))"
    using fillArguments_heuristic [OF hp, of ?on] setTitle_parameters [of False] by simp
  then have c4: "fillArguments ?on False reply ''x.setTitle()'' 11
     = Inr (Some \<lparr> arguments = ''title'', replaceStart = 11, replaceLength = 0 \<rparr>)"
    by (simp add: fillResult_def generateArgumentString_def)
  show ?thesis
    using c1 c2 c3 c4 by blast
qed

theorem setter_heuristic_witness:
  "fillArguments \<lparr> enableCompletion = True, useParameterNames = True, fallbackToTypeName = True \<rparr>
       True NoSignatureHelp ''new Foo().setUserId( )'' 20
     = Inr (Some \<lparr> arguments = ''userId'', replaceStart = 20, replaceLength = 1 \<rparr>)
   \<and> parseParametersFromContext
       \<lparr> enableCompletion = True, useParameterNames = True, fallbackToTypeName = True \<rparr>
       ''new Foo().setUserId( )''
       \<lparr> methodName = ''setUserId'', isConstructor = False,
         openParenOffset = 19, closeParenOffset = 21,
         argumentsStart = 20, argumentsLength = 1, existingArguments = [] \<rparr>
     = Inr (Some [\<lparr> name = ''userId'', type = ''Object'', index = 0 \<rparr>])"
proof -
  let ?on = "\<lparr> enableCompletion = True, useParameterNames = True, fallbackToTypeName = True \<rparr>"
  let ?T = "''new Foo().setUserId( )''"
  let ?ctx = "\<lparr> methodName = ''setUserId'', isConstructor = False,
         openParenOffset = 19, closeParenOffset = 21,
         argumentsStart = 20, argumentsLength = 1, existingArguments = [] \<rparr>"
  have h: "heuristicPath True NoSignatureHelp ?T 20 ?ctx"
    by code_simp
  have n: "methodName ?ctx = ''set'' @ CHR ''U'' # ''serId''"
    by simp
  have l: "toLowerCaseChar CHR ''U'' = CHR ''u''"
    by code_simp
  have fb: "fallbackToTypeName ?on" "useParameterNames ?on"
    by simp_all
  from setter_heuristic [of "CHR ''U''" "''serId''" False True NoSignatureHelp ?T 20 ?ctx ?on]
  have "parseParametersFromContext ?on ?T ?ctx
          = Inr (Some [\<lparr> name = toLowerCaseChar CHR ''U'' # ''serId'', type = ''Object'', index = 0 \<rparr>])
        \<and> fillArguments ?on True NoSignatureHelp ?T 20
          = Inr (Some \<lparr> arguments = toLowerCaseChar CHR ''U'' # ''serId'',
                         replaceStart = argumentsStart ?ctx,
                         replaceLength = argumentsLength ?ctx \<rparr>)"
    using h n fb by blast
  then show ?thesis
    by (simp add: l)
qed

text \<open>
  With \<open>useParameterNames\<close> unset the fill text for \<open>setTitle\<close> is \<open>object\<close>, and
  with \<open>fallbackToTypeName\<close> unset there is no fill result at all.
\<close>

theorem setter_heuristic_counterexample:
  "fillArguments \<lparr> enableCompletion = True, useParameterNames = False, fallbackToTypeName = True \<rparr>
       False Rejected ''x.setTitle()'' 11
     = Inr (Some \<lparr> arguments = ''object'', replaceStart = 11, replaceLength = 0 \<rparr>)
   \<and> fillArguments \<lparr> enableCompletion = True, useParameterNames = True, fallbackToTypeName = False \<rparr>
       False Rejected ''x.setTitle()'' 11
     = Inr None"
  by code_simp

subsection \<open>The completion provider\<close>

lemma insideLoop_scanBackward:
  "insideLoop t (Suc i) d =
     (case scanBackward t i d of
        None \<Rightarrow> False
      | Some p \<Rightarrow> endsWithIdentChar (trim (substring t 0 p)))"
proof (induction i arbitrary: d)
  case 0
  show ?case by (simp add: backwardBody_def)
next
  case (Suc i)
  show ?case
    unfolding insideLoop.simps(2) [of t "Suc i" d] scanBackward.simps(2) [of t i d] Suc
    by (simp add: backwardBody_def)
qed

lemma substring_0: "substring t 0 n = take n t"
  by (simp add: substring_def Let_def min_def)

lemma isInsideMethodCall_iff: "isInsideMethodCall t \<longleftrightarrow> identBeforeUnmatchedOpen t"
proof (cases t)
  case Nil
  then show ?thesis by (simp add: isInsideMethodCall_def identBeforeUnmatchedOpen_def)
next
  case (Cons c cs)
  then have len: "length t = Suc (length t - 1)" by simp
  have "isInsideMethodCall t \<longleftrightarrow>
      (case scanBackward t (length t - 1) 0 of
         None \<Rightarrow> False
       | Some p \<Rightarrow> endsWithIdentChar (trim (take p t)))"
    unfolding isInsideMethodCall_def
    by (subst len) (simp only: insideLoop_scanBackward substring_0)
  also have "\<dots> \<longleftrightarrow> (\<exists>p. unmatchedOpen t (length t - 1) p \<and> endsWithIdentChar (trim (take p t)))"
    by (cases "scanBackward t (length t - 1) 0") (auto simp: scanBackward_iff [symmetric])
  also have "\<dots> \<longleftrightarrow> identBeforeUnmatchedOpen t"
    unfolding identBeforeUnmatchedOpen_def list_ex_iff
    using unmatchedOpen_bounds by auto
  finally show ?thesis .
qed

lemma getParametersFromSignatureHelp_eq:
  "getParametersFromSignatureHelp reply = getParametersFromLanguageServer reply"
  by (simp add: getParametersFromSignatureHelp_def getParametersFromLanguageServer_def)

lemma getParameters_Some_nonempty:
  "getParametersFromSignatureHelp reply = Some ps \<Longrightarrow> ps \<noteq> []"
  by (auto simp: getParametersFromSignatureHelp_def Let_def split: SignatureHelpReply.splits if_splits)


lemma lineAt_valid: "n < length document \<Longrightarrow> lineAt document n = Inr (document ! n)"
  by (simp add: lineAt_def)

lemma skipWhiteSpace_le: "s \<le> ch \<Longrightarrow> skipWhiteSpace lineText ch s \<le> ch"
proof (induction "ch - s" arbitrary: s)
  case 0
  then show ?case by (subst skipWhiteSpace.simps) simp
next
  case (Suc n)
  then have "skipWhiteSpace lineText ch (s + 1) \<le> ch" by simp
  then show ?case using Suc.prems by (subst skipWhiteSpace.simps) simp
qed

lemma startLoop_le: "n \<le> ch \<Longrightarrow> startLoop lineText tb ch n \<le> ch"
  by (induction n) (auto simp: skipWhiteSpace_le)

lemma endLoop_ge: "ch \<le> endLoop ch cs i d"
  by (induction cs arbitrary: i d) auto

lemma calculateReplaceRange_valid:
  assumes "line position < length document"
  shows "calculateReplaceRange document position =
     Inr \<lparr> rangeStart = \<lparr> line = line position,
                           character = startLoop (document ! line position)
                             (take (character position) (document ! line position))
                             (character position)
                             (length (take (character position) (document ! line position))) \<rparr>,
           rangeEnd = \<lparr> line = line position,
                         character = endLoop (character position)
                             (drop (character position) (document ! line position)) 0 0 \<rparr> \<rparr>"
proof -
  let ?l = "document ! line position"
  let ?s = "startLoop ?l (take (character position) ?l) (character position)
              (length (take (character position) ?l))"
  let ?e = "endLoop (character position) (drop (character position) ?l) 0 0"
  have "?s \<le> character position" by (rule startLoop_le) simp
  moreover have "character position \<le> ?e" by (rule endLoop_ge)
  ultimately have "\<not> isBefore \<lparr> line = line position, character = ?e \<rparr>
                            \<lparr> line = line position, character = ?s \<rparr>"
    by (simp add: isBefore_def)
  then show ?thesis
    using assms
    by (simp add: calculateReplaceRange_def lineAt_valid Let_def substring_0 substringFrom_def
        newRange_def)
qed


lemma stopAt_0: "stopAt d (c # cs) 0 \<longleftrightarrow> (isCloseBracket c \<or> c = CHR '','') \<and> d = 0"
  by (simp add: stopAt_def anyBracketDepth_def)

lemma stopAt_Suc: "stopAt d (c # cs) (Suc j) \<longleftrightarrow> stopAt (d + bracketDelta c) cs j"
  by (simp add: stopAt_def anyBracketDepth_def add.assoc)

lemma endLoop_step:
  assumes "\<not> stopAt d (c # cs) 0" and "0 \<le> d"
  shows "endLoop ch (c # cs) i d = endLoop ch cs (i + 1) (d + bracketDelta c)"
    and "0 \<le> d + bracketDelta c"
proof -
  have ns: "\<not> ((isCloseBracket c \<or> c = CHR '','') \<and> d = 0)" using assms(1) by (simp add: stopAt_0)
  show "endLoop ch (c # cs) i d = endLoop ch cs (i + 1) (d + bracketDelta c)"
    using ns open_not_close [of c] comma_class
    by (auto simp: bracketDelta_def)
  show "0 \<le> d + bracketDelta c"
    using ns assms(2) by (auto simp: bracketDelta_def)
qed

lemma endLoop_stop:
  assumes "stopAt d (c # cs) 0"
  shows "endLoop ch (c # cs) i d = ch + i"
proof -
  from assms have s: "isCloseBracket c \<or> c = CHR '',''" and d: "d = 0"
    by (simp_all add: stopAt_0)
  from s show ?thesis
  proof
    assume "isCloseBracket c"
    then show ?thesis using d open_not_close [of c] by auto
  next
    assume "c = CHR '',''"
    then show ?thesis using d comma_class by simp
  qed
qed

lemma endLoop_none:
  "0 \<le> d \<Longrightarrow> \<forall>j<length cs. \<not> stopAt d cs j \<Longrightarrow> endLoop ch cs i d = ch"
proof (induction cs arbitrary: i d)
  case Nil
  show ?case by simp
next
  case (Cons c cs)
  from Cons.prems(2) have n0: "\<not> stopAt d (c # cs) 0" by auto
  have rest: "\<forall>j<length cs. \<not> stopAt (d + bracketDelta c) cs j"
    using Cons.prems(2) by (auto simp: stopAt_Suc [symmetric])
  show ?case
    using endLoop_step [OF n0 Cons.prems(1)] Cons.IH [OF _ rest] by simp
qed

lemma endLoop_first:
  "0 \<le> d \<Longrightarrow> stopAt d cs j \<Longrightarrow> \<forall>k<j. \<not> stopAt d cs k \<Longrightarrow> endLoop ch cs i d = ch + i + j"
proof (induction cs arbitrary: i d j)
  case Nil
  then show ?case by (simp add: stopAt_def)
next
  case (Cons c cs)
  show ?case
  proof (cases j)
    case 0
    with Cons.prems(2) have "stopAt d (c # cs) 0" by simp
    then have "endLoop ch (c # cs) i d = ch + i" by (rule endLoop_stop)
    with 0 show ?thesis by (simp only: add_0_right)
  next
    case (Suc j')
    with Cons.prems(3) have n0: "\<not> stopAt d (c # cs) 0" by auto
    have st: "stopAt (d + bracketDelta c) cs j'"
      using Cons.prems(2) Suc by (simp add: stopAt_Suc)
    have rest: "\<forall>k<j'. \<not> stopAt (d + bracketDelta c) cs k"
      using Cons.prems(3) Suc by (auto simp: stopAt_Suc [symmetric])
    show ?thesis
      using endLoop_step [OF n0 Cons.prems(1)] Cons.IH [OF _ st rest] Suc by simp
  qed
qed

lemma topLevelStop_stopAt: "topLevelStop s j \<longleftrightarrow> stopAt 0 s j"
  by (simp add: topLevelStop_def stopAt_def)

lemma endLoop_topLevel:
  "(\<forall>j<length s. \<not> topLevelStop s j) \<longrightarrow> endLoop ch s 0 0 = ch"
  "topLevelStop s j \<and> (\<forall>k<j. \<not> topLevelStop s k) \<longrightarrow> endLoop ch s 0 0 = ch + j"
  using endLoop_none [of 0 s ch 0] endLoop_first [of 0 s j ch 0]
  by (simp_all add: topLevelStop_stopAt)

lemma slice_append_shift: "slice (pre @ cur) (length pre + a) (length pre + b) = slice cur a b"
  by (simp add: slice_def)

lemma jsIndex_append_shift: "jsIndex (pre @ cur) (length pre + q) = jsIndex cur q"
  by (simp add: jsIndex_def nth_append)

lemma unmatchedOpen_shift:
  assumes "cur \<noteq> []" and "unmatchedOpen cur (length cur - 1) q"
  shows "unmatchedOpen (pre @ cur) (length (pre @ cur) - 1) (length pre + q)"
proof -
  have st: "length (pre @ cur) - 1 = length pre + (length cur - 1)" using assms(1) by (cases cur) auto
  have s: "slice (pre @ cur) (length pre + q + 1) (length pre + (length cur - 1) + 1)
             = slice cur (q + 1) (length cur - 1 + 1)"
    using slice_append_shift [of pre cur "q + 1" "length cur - 1 + 1"] by (simp add: add.assoc)
  show ?thesis
    using assms(2) unfolding st unmatchedOpen_def s jsIndex_append_shift by simp
qed

lemma earlier_line_not_inside:
  assumes "unmatchedOpen (pre @ cur) (length (pre @ cur) - 1) p" and "p < length pre"
  shows "\<not> isInsideMethodCall cur"
proof
  assume "isInsideMethodCall cur"
  then have "identBeforeUnmatchedOpen cur" by (simp only: isInsideMethodCall_iff)
  then obtain q where q: "unmatchedOpen cur (length cur - 1) q" and "q < length cur"
    by (auto simp: identBeforeUnmatchedOpen_def list_ex_iff)
  then have "cur \<noteq> []" by auto
  from unmatchedOpen_shift [OF this q, of pre]
  have "unmatchedOpen (pre @ cur) (length (pre @ cur) - 1) (length pre + q)" .
  with assms(1) have "p = length pre + q" by (rule unmatchedOpen_unique)
  with assms(2) show False by simp
qed

lemma provideCompletionItems_valid:
  assumes "line position < length document"
  shows "provideCompletionItems options hasJavaSupport reply document position =
     (if enableCompletion options
         \<and> isInsideMethodCall (take (character position) (document ! line position))
         \<and> hasJavaSupport \<and> getParametersFromSignatureHelp reply \<noteq> None
      then (case createCompletionItems (the (getParametersFromSignatureHelp reply)) document position of
              Inl e \<Rightarrow> Inl e
            | Inr items \<Rightarrow> Inr (Some items))
      else Inr None)"
  using assms getParameters_Some_nonempty [of reply]
  by (auto simp: provideCompletionItems_def lineAt_valid Let_def substring_0 split: option.splits)

lemma createCompletionItems_valid:
  assumes "line position < length document"
  shows "\<exists>r items. calculateReplaceRange document position = Inr r
     \<and> createCompletionItems ps document position = Inr items
     \<and> map label items = ''Fill all arguments'' # map name ps
     \<and> (\<forall>it\<in>set items. range' it = None \<or> range' it = Some r)"
proof -
  from calculateReplaceRange_valid [OF assms] obtain r where
    r: "calculateReplaceRange document position = Inr r" by blast
  let ?f = "\<lambda>(param, i).
              \<lparr> label = name param, kind = Variable, insertText = None,
                detail = Some (''Parameter '' @ numberToString (i + 1) @ '': '' @ type param),
                documentation = None, sortText = Some (''1'' @ numberToString i),
                preselect = False, range' = None \<rparr>"
  obtain top where items: "createCompletionItems ps document position
      = Inr (top # map ?f (zip ps [0..<length ps]))"
    and top: "label top = ''Fill all arguments''" "range' top = Some r"
    using r by (simp add: createCompletionItems_def Let_def)
  have names: "map label (map ?f (zip ps [0..<length ps])) = map name ps"
    by (rule nth_equalityI) simp_all
  have ranges: "\<forall>it\<in>set (map ?f (zip ps [0..<length ps])). range' it = None"
    by (auto simp: split_beta)
  show ?thesis
    using r items top names ranges by (intro exI [of _ r] exI [of _ "top # map ?f (zip ps [0..<length ps])"]) auto
qed


lemma endLoop_le: "endLoop ch cs i d \<le> ch + i + length cs"
proof (induction cs arbitrary: i d)
  case Nil
  show ?case by simp
next
  case (Cons c cs)
  have "endLoop ch (c # cs) i d = ch + i
        \<or> (\<exists>d'. endLoop ch (c # cs) i d = endLoop ch cs (i + 1) d')"
    by auto
  then show ?case
  proof
    assume "endLoop ch (c # cs) i d = ch + i"
    then show ?thesis by simp
  next
    assume "\<exists>d'. endLoop ch (c # cs) i d = endLoop ch cs (i + 1) d'"
    then obtain d' where "endLoop ch (c # cs) i d = endLoop ch cs (i + 1) d'" by (elim exE)
    with Cons [of "i + 1" d'] show ?thesis by simp
  qed
qed



text \<open>
  Claim C10. The completion provider reads the cursor's line only. For a position in
  the document: when the innermost open parenthesis that is still open at the cursor
  (in the text of the document up to the cursor, whatever the line terminator)
  stands on an earlier line, \<open>provideCompletionItems\<close> returns \<open>null\<close>, whatever
  the signature-help query could supply. The replacement range starts and ends on the
  cursor's line, starts at or before the cursor and ends at or after it, inside the
  line when the cursor is; its end is the cursor when no comma or closing bracket at
  bracket depth 0 follows on the line, and otherwise the first of them. It is the only
  range any suggestion carries.
\<close>

theorem completion_reads_cursor_line_only:
  "line position < length document \<longrightarrow>
     (unmatchedOpen
        (textBeforeLine eol document (line position)
           @ take (character position) (document ! line position))
        (length (textBeforeLine eol document (line position)
           @ take (character position) (document ! line position)) - 1) p
      \<and> p < length (textBeforeLine eol document (line position)) \<longrightarrow>
      provideCompletionItems options hasJavaSupport reply document position = Inr None)
     \<and> (\<exists>r. calculateReplaceRange document position = Inr r
          \<and> line (rangeStart r) = line position \<and> line (rangeEnd r) = line position
          \<and> character (rangeStart r) \<le> character position
          \<and> character position \<le> character (rangeEnd r)
          \<and> (character position \<le> length (document ! line position) \<longrightarrow>
               character (rangeEnd r) \<le> length (document ! line position))
          \<and> ((\<forall>j<length (drop (character position) (document ! line position)).
                 \<not> topLevelStop (drop (character position) (document ! line position)) j) \<longrightarrow>
               character (rangeEnd r) = character position)
          \<and> (topLevelStop (drop (character position) (document ! line position)) k
               \<and> (\<forall>j<k. \<not> topLevelStop (drop (character position) (document ! line position)) j) \<longrightarrow>
               character (rangeEnd r) = character position + k)
          \<and> (\<forall>items. provideCompletionItems options hasJavaSupport reply document position
                        = Inr (Some items) \<longrightarrow>
                 (\<forall>it\<in>set items. range' it = None \<or> range' it = Some r)))"
proof
  assume v: "line position < length document"
  let ?l = "document ! line position"
  let ?ch = "character position"
  let ?after = "drop ?ch ?l"
  let ?pre = "textBeforeLine eol document (line position)"
  let ?s = "startLoop ?l (take ?ch ?l) ?ch (length (take ?ch ?l))"
  let ?e = "endLoop ?ch ?after 0 0"
  let ?r = "\<lparr> rangeStart = \<lparr> line = line position, character = ?s \<rparr>,
              rangeEnd = \<lparr> line = line position, character = ?e \<rparr> \<rparr>"
  have r: "calculateReplaceRange document position = Inr ?r"
    by (rule calculateReplaceRange_valid [OF v])
  have part1: "unmatchedOpen (?pre @ take ?ch ?l) (length (?pre @ take ?ch ?l) - 1) p
      \<and> p < length ?pre \<longrightarrow>
      provideCompletionItems options hasJavaSupport reply document position = Inr None"
    using earlier_line_not_inside [of ?pre "take ?ch ?l" p]
    by (auto simp: provideCompletionItems_valid [OF v])
  have s: "?s \<le> ?ch" by (rule startLoop_le) simp
  have e: "?ch \<le> ?e" by (rule endLoop_ge)
  have inl: "?ch \<le> length ?l \<longrightarrow> ?e \<le> length ?l"
    using endLoop_le [of ?ch ?after 0 0] by auto
  have none: "(\<forall>j<length ?after. \<not> topLevelStop ?after j) \<longrightarrow> ?e = ?ch"
    by (rule endLoop_topLevel(1))
  have first: "topLevelStop ?after k \<and> (\<forall>j<k. \<not> topLevelStop ?after j) \<longrightarrow> ?e = ?ch + k"
    by (rule endLoop_topLevel(2))
  have items: "\<forall>items. provideCompletionItems options hasJavaSupport reply document position
                        = Inr (Some items) \<longrightarrow>
                 (\<forall>it\<in>set items. range' it = None \<or> range' it = Some ?r)"
  proof (intro allI impI)
    fix items
    assume a: "provideCompletionItems options hasJavaSupport reply document position
                 = Inr (Some items)"
    then have "createCompletionItems (the (getParametersFromSignatureHelp reply)) document position
                 = Inr items"
      by (auto simp: provideCompletionItems_valid [OF v] split: if_splits sum.splits)
    with createCompletionItems_valid [OF v, of "the (getParametersFromSignatureHelp reply)"] r
    show "\<forall>it\<in>set items. range' it = None \<or> range' it = Some ?r"
      by auto
  qed
  show "(unmatchedOpen (?pre @ take ?ch ?l) (length (?pre @ take ?ch ?l) - 1) p
      \<and> p < length ?pre \<longrightarrow>
      provideCompletionItems options hasJavaSupport reply document position = Inr None)
     \<and> (\<exists>r. calculateReplaceRange document position = Inr r
          \<and> line (rangeStart r) = line position \<and> line (rangeEnd r) = line position
          \<and> character (rangeStart r) \<le> ?ch
          \<and> ?ch \<le> character (rangeEnd r)
          \<and> (?ch \<le> length ?l \<longrightarrow> character (rangeEnd r) \<le> length ?l)
          \<and> ((\<forall>j<length ?after. \<not> topLevelStop ?after j) \<longrightarrow> character (rangeEnd r) = ?ch)
          \<and> (topLevelStop ?after k \<and> (\<forall>j<k. \<not> topLevelStop ?after j) \<longrightarrow>
               character (rangeEnd r) = ?ch + k)
          \<and> (\<forall>items. provideCompletionItems options hasJavaSupport reply document position
                        = Inr (Some items) \<longrightarrow>
                 (\<forall>it\<in>set items. range' it = None \<or> range' it = Some r)))"
    using part1 r s e inl none first items
    by (intro conjI exI [of _ ?r]) simp_all
qed


theorem completion_reads_cursor_line_only_witness:
  "provideCompletionItems
       \<lparr> enableCompletion = True, useParameterNames = True, fallbackToTypeName = True \<rparr> True
       (Reply \<lparr> signatures = [\<lparr> sigLabel = ''foo(int a, int b)'',
                                  parameters = [LabelString ''int a'', LabelString ''int b''] \<rparr>],
                 activeSignature = 0 \<rparr>)
       [''foo('', ''  a, b)''] \<lparr> line = 1, character = 2 \<rparr> = Inr None
   \<and> (\<exists>r. calculateReplaceRange [''foo(a, b''] \<lparr> line = 0, character = 8 \<rparr> = Inr r
          \<and> line (rangeStart r) = 0 \<and> line (rangeEnd r) = 0 \<and> character (rangeEnd r) = 8)"
proof -
  let ?on = "\<lparr> enableCompletion = True, useParameterNames = True, fallbackToTypeName = True \<rparr>"
  let ?reply = "Reply \<lparr> signatures = [\<lparr> sigLabel = ''foo(int a, int b)'',
                                  parameters = [LabelString ''int a'', LabelString ''int b''] \<rparr>],
                 activeSignature = 0 \<rparr>"
  let ?doc = "[''foo('', ''  a, b)'']"
  let ?pos = "\<lparr> line = 1, character = 2 \<rparr>"
  let ?doc2 = "[''foo(a, b'']"
  let ?pos2 = "\<lparr> line = 0, character = 8 \<rparr>"
  have v: "line ?pos < length ?doc"
    by simp
  have u: "unmatchedOpen
        (textBeforeLine [CHR 0x0A] ?doc (line ?pos) @ take (character ?pos) (?doc ! line ?pos))
        (length (textBeforeLine [CHR 0x0A] ?doc (line ?pos)
           @ take (character ?pos) (?doc ! line ?pos)) - 1) 3
      \<and> 3 < length (textBeforeLine [CHR 0x0A] ?doc (line ?pos))"
    by code_simp
  note t = completion_reads_cursor_line_only
    [where position = ?pos and document = ?doc and eol = "[CHR 0x0A]" and p = 3
       and options = ?on and hasJavaSupport = True and reply = ?reply and k = 0,
     THEN mp, OF v]
  have a: "provideCompletionItems ?on True ?reply ?doc ?pos = Inr None"
    by (rule mp [OF conjunct1 [OF t] u])
  have v2: "line ?pos2 < length ?doc2"
    by simp
  note t2 = completion_reads_cursor_line_only
    [where position = ?pos2 and document = ?doc2 and eol = "[CHR 0x0A]" and p = 0
       and options = ?on and hasJavaSupport = True and reply = ?reply and k = 0,
     THEN mp, OF v2]
  have nostop: "\<forall>j<length (drop (character ?pos2) (?doc2 ! line ?pos2)).
      \<not> topLevelStop (drop (character ?pos2) (?doc2 ! line ?pos2)) j"
    by simp
  from conjunct2 [OF t2] obtain r where
    r: "calculateReplaceRange ?doc2 ?pos2 = Inr r"
    "line (rangeStart r) = line ?pos2" "line (rangeEnd r) = line ?pos2"
    and d: "(\<forall>j<length (drop (character ?pos2) (?doc2 ! line ?pos2)).
               \<not> topLevelStop (drop (character ?pos2) (?doc2 ! line ?pos2)) j)
            \<longrightarrow> character (rangeEnd r) = character ?pos2"
    by (elim exE conjE)
  from d nostop have "character (rangeEnd r) = character ?pos2" by (rule mp)
  with r have b: "\<exists>r. calculateReplaceRange ?doc2 ?pos2 = Inr r
          \<and> line (rangeStart r) = 0 \<and> line (rangeEnd r) = 0 \<and> character (rangeEnd r) = 8"
    by (intro exI [of _ r]) simp
  show ?thesis
    using a b by (intro conjI)
qed

end
